theory Spec2Isabelle
  imports Complex_Main "HOL-Library.Multiset" "HOL-Library.Log_Nat"
begin

unbundle bit_operations_syntax

section \<open>Constants and address arithmetic (buddy.c, lines 28--41)\<close>

text \<open>
  Addresses are byte offsets from \<open>g_memory\<close> (the arena base), so the base itself is
  offset \<open>0\<close> and \<open>NULL\<close> is not an address: a failing allocation is an error value.
  Orders are C \<open>int\<close>s; \<open>shl1 k\<close> is \<open>1 << k\<close> for the shift counts the program uses.
\<close>

definition MIN_ORDER :: int where
  "MIN_ORDER = 12"

definition MAX_ORDER :: int where
  "MAX_ORDER = 20"

definition UNSET :: int where
  "UNSET = - 1"

definition shl1 :: "int \<Rightarrow> nat" where
  "shl1 k = 2 ^ nat k"

definition PAGE_SIZE :: nat where
  "PAGE_SIZE = shl1 MIN_ORDER"

definition N_PAGES :: nat where
  "N_PAGES = shl1 MAX_ORDER div PAGE_SIZE"

definition PAGE_TO_ADDR :: "nat \<Rightarrow> nat" where
  "PAGE_TO_ADDR page_idx = page_idx * PAGE_SIZE"

definition ADDR_TO_PAGE :: "nat \<Rightarrow> nat" where
  "ADDR_TO_PAGE addr = addr div PAGE_SIZE"

definition BUDDY_ADDR :: "nat \<Rightarrow> int \<Rightarrow> nat" where
  "BUDDY_ADDR addr k = addr XOR shl1 k"

section \<open>Requested order (buddy.c, line 184)\<close>

text \<open>
  \<open>clog2 n\<close> computes \<open>ceil(log2(n))\<close> on integers; lemma \<open>clog2_ceiling_log\<close> below
  shows that it is the ceiling of the real logarithm for every positive \<open>n\<close>.
\<close>

function clog2 :: "int \<Rightarrow> int" where
  "clog2 n = (if n \<le> 1 then 0 else 1 + clog2 ((n + 1) div 2))"
  by pat_completeness auto
termination
  by (relation "measure nat") auto

declare clog2.simps [simp del]

definition REQ_ORDER :: "int \<Rightarrow> int" where
  "REQ_ORDER sz = max (clog2 sz) MIN_ORDER"

lemma clog2_nonneg: "0 \<le> clog2 n"
  by (induction n rule: clog2.induct) (subst clog2.simps, simp)

lemma clog2_pow2: "clog2 (2 ^ n) = int n"
proof (induction n)
  case 0 show ?case by (simp add: clog2.simps)
next
  case (Suc n)
  have "(1::int) \<le> 2 ^ n" by simp
  then have "(1::int) < 2 ^ Suc n" by (simp only: power_Suc)
  moreover have "((2::int) ^ Suc n + 1) div 2 = 2 ^ n" by simp
  ultimately show ?case using Suc by (subst clog2.simps) simp
qed

lemma clog2_pos: "1 < n \<Longrightarrow> 0 < clog2 n"
  using clog2_nonneg[of "(n + 1) div 2"] by (subst clog2.simps) simp

lemma pow2_nat_step: "0 < k \<Longrightarrow> (2::int) ^ nat k = 2 * 2 ^ nat (k - 1)"
proof -
  assume "0 < k"
  then have "nat k = Suc (nat (k - 1))" by simp
  then show ?thesis by simp
qed

lemma clog2_bounds: "1 \<le> n \<Longrightarrow> n \<le> 2 ^ nat (clog2 n) \<and> (1 < n \<longrightarrow> 2 ^ nat (clog2 n - 1) < n)"
proof (induction n rule: clog2.induct)
  case (1 n)
  show ?case
  proof (cases "n \<le> 1")
    case True with 1 show ?thesis by (simp add: clog2.simps)
  next
    case False
    let ?m = "(n + 1) div 2"
    have m: "1 \<le> ?m" using False by linarith
    from 1(1)[OF False m] have ih: "?m \<le> 2 ^ nat (clog2 ?m)" "1 < ?m \<longrightarrow> 2 ^ nat (clog2 ?m - 1) < ?m" by auto
    have c: "clog2 n = 1 + clog2 ?m" using False by (subst clog2.simps) simp
    have nn: "0 \<le> clog2 ?m" by (rule clog2_nonneg)
    have p: "(2::int) ^ nat (1 + clog2 ?m) = 2 * 2 ^ nat (clog2 ?m)"
      using pow2_nat_step[of "1 + clog2 ?m"] nn by simp
    have up: "n \<le> 2 ^ nat (clog2 n)" unfolding c p using ih(1) by linarith
    have lo: "2 ^ nat (clog2 n - 1) < n"
    proof (cases "1 < ?m")
      case True
      then have "2 ^ nat (clog2 ?m - 1) < ?m" using ih(2) by simp
      moreover have "(2::int) ^ nat (clog2 ?m) = 2 * 2 ^ nat (clog2 ?m - 1)"
        using clog2_pos[OF True] by (rule pow2_nat_step)
      ultimately show ?thesis unfolding c by simp
    next
      case False2: False
      then have "?m = 1" using m by linarith
      then have "clog2 ?m = 0" by (simp add: clog2.simps)
      then show ?thesis unfolding c using False by simp
    qed
    show ?thesis using up lo by simp
  qed
qed

lemma clog2_ceiling_log: 
  assumes "0 < n" shows "clog2 n = \<lceil>log 2 (real_of_int n)\<rceil>"
proof (cases "n = 1")
  case True then show ?thesis by (simp add: clog2.simps)
next
  case False
  then have n: "1 < n" using assms by simp
  let ?k = "clog2 n"
  have k: "0 < ?k" using n by (rule clog2_pos)
  from clog2_bounds[of n] n have b: "n \<le> 2 ^ nat ?k" "2 ^ nat (?k - 1) < n" by auto
  have "log 2 (real_of_int n) \<le> real_of_int ?k"
  proof -
    have "real_of_int n \<le> 2 ^ nat ?k" using b(1) by (metis of_int_le_iff of_int_numeral of_int_power)
    moreover have "0 < real_of_int n" using n by simp
    ultimately have "log 2 (real_of_int n) \<le> log 2 (2 ^ nat ?k)" by (subst log_le_cancel_iff) simp_all
    also have "\<dots> = real (nat ?k)" by simp
    finally show ?thesis using k by simp
  qed
  moreover have "real_of_int ?k - 1 < log 2 (real_of_int n)"
  proof -
    have "(2::real) ^ nat (?k - 1) < real_of_int n" using b(2) by (metis of_int_less_iff of_int_numeral of_int_power)
    moreover have "0 < real_of_int n" using n by simp
    ultimately have "log 2 (2 ^ nat (?k - 1)) < log 2 (real_of_int n)" by (subst log_less_cancel_iff) simp_all
    moreover have "log 2 (2 ^ nat (?k - 1)) = real (nat (?k - 1))" by simp
    ultimately show ?thesis using k by simp
  qed
  ultimately show ?thesis by (simp add: ceiling_unique)
qed

section \<open>Allocator state\<close>

text \<open>
  \<open>free_area k\<close> is the list threaded through \<open>free_area[k]\<close>, as page indices from the
  head: \<open>list_add\<close> is \<open>#\<close>, \<open>list_del\<close> of a node is \<open>remove1\<close>, \<open>list_empty\<close> is \<open>= []\<close>
  and \<open>list_for_each\<close> visits the list from left to right.
  \<open>page_order i\<close> is \<open>g_pages[i].order\<close>. The fields \<open>index\<close> and \<open>address\<close> of
  \<open>g_pages[i]\<close> are written once by \<open>buddy_init\<close> (\<open>i\<close> and \<open>PAGE_TO_ADDR(i)\<close>) and never
  again, so the model reads them off the position \<open>i\<close>.
  \<open>buddy_init\<close> initialises the lists of the orders \<open>MIN_ORDER\<close> to \<open>MAX_ORDER\<close> only, and
  \<open>g_pages\<close> has \<open>N_PAGES\<close> records; the model is total, and the functions below return
  \<open>Undefined\<close> or \<open>None\<close> where the program would use another list or record.
\<close>

record state =
  free_area :: "int \<Rightarrow> nat list"
  page_order :: "nat \<Rightarrow> int"

datatype error = InvalidSize | OutOfMemory | Undefined

definition buddy_init :: state where
  "buddy_init = \<lparr> free_area = (\<lambda>k. [])(MAX_ORDER := [0]), page_order = (\<lambda>i. UNSET) \<rparr>"

section \<open>Allocation (buddy.c, lines 116--211)\<close>

text \<open>
  \<open>buddy_alloc\<close>, its \<open>for\<close> loop and \<open>buddy_split\<close> call each other, as in the source.
  Every function returns the result together with the state it leaves. The two
  \<open>return NULL\<close> of \<open>buddy_alloc\<close> are told apart by the error value: \<open>InvalidSize\<close> is
  the one at line 175 and \<open>OutOfMemory\<close> the one at line 210. \<open>Undefined\<close> marks the places
  where the C program would leave defined behaviour: an order that is no index of an
  initialised free list, \<open>list_entry\<close> on an empty list, the page of a \<open>NULL\<close> block and a
  page index beyond \<open>g_pages\<close>. The diagnostic output of \<open>PDEBUG\<close> and of the
  \<open>buddy_dump\<close> call at the entry of \<open>buddy_alloc\<close> does not touch the allocator state and is left out.
\<close>

function buddy_alloc :: "state \<Rightarrow> int \<Rightarrow> (error + nat) \<times> state"
  and buddy_alloc_loop :: "state \<Rightarrow> int \<Rightarrow> int \<Rightarrow> (error + nat) \<times> state"
  and buddy_split :: "state \<Rightarrow> int \<Rightarrow> int \<Rightarrow> (error + nat) \<times> state"
where
  "buddy_alloc s sz =
     (if sz \<le> 0 then (Inl InvalidSize, s)
      else buddy_alloc_loop s (REQ_ORDER sz) (REQ_ORDER sz))"
| "buddy_alloc_loop s i req =
     (if i \<le> MAX_ORDER then
        (if free_area s i \<noteq> [] then buddy_split s i req
         else buddy_alloc_loop s (i + 1) req)
      else (Inl OutOfMemory, s))"
| "buddy_split s i ord =
     (if ord < MIN_ORDER \<or> MAX_ORDER < ord then (Inl Undefined, s)
      else if ord = i then
        (case free_area s i of
           [] \<Rightarrow> (Inl Undefined, s)
         | left # rest \<Rightarrow>
             (Inr (PAGE_TO_ADDR left),
              s\<lparr>free_area := (free_area s)(i := rest),
                page_order := (page_order s)(left := ord)\<rparr>))
      else
        (case buddy_alloc s (int (shl1 (ord + 1))) of
           (Inl e, s1) \<Rightarrow> (Inl Undefined, s1)
         | (Inr block_address, s1) \<Rightarrow>
             (let left = ADDR_TO_PAGE block_address;
                  right = left + shl1 ord div PAGE_SIZE
              in if N_PAGES \<le> right then (Inl Undefined, s1)
                 else (Inr (PAGE_TO_ADDR left),
                       s1\<lparr>free_area := (free_area s1)(ord := right # free_area s1 ord),
                          page_order := (page_order s1)(left := ord)\<rparr>))))"
  by pat_completeness auto
termination
  apply (relation "inv_image (less_than <*lex*> less_than)
      (\<lambda>x. case x of
          Inl (s, sz) \<Rightarrow> (3 * nat (40 - REQ_ORDER sz) + 2, 0)
        | Inr (Inl (s, i, req)) \<Rightarrow> (3 * nat (40 - req) + 1, nat (MAX_ORDER + 1 - i))
        | Inr (Inr (s, i, ord)) \<Rightarrow> (3 * nat (40 - ord), 0))")
      apply (auto simp: REQ_ORDER_def shl1_def clog2_pow2 MIN_ORDER_def MAX_ORDER_def)
  done

declare buddy_alloc.simps [simp del] buddy_alloc_loop.simps [simp del] buddy_split.simps [simp del]

section \<open>Freeing (buddy.c, lines 220--286)\<close>

text \<open>
  \<open>find_buddy\<close> walks \<open>free_area[order]\<close> and returns the first page whose address is the
  buddy address, or \<open>NULL\<close> (\<open>None\<close>); a list node is never \<open>NULL\<close>.
\<close>

definition find_buddy :: "state \<Rightarrow> nat \<Rightarrow> int \<Rightarrow> nat option" where
  "find_buddy s address ord =
     List.find (\<lambda>current_page. BUDDY_ADDR address ord = PAGE_TO_ADDR current_page) (free_area s ord)"

text \<open>
  One execution of the body of the \<open>do \<dots> while\<close> loop of \<open>buddy_free\<close>, with the loop
  condition \<open>order++ < MAX_ORDER\<close>: \<open>Inr\<close> is the state in which \<open>buddy_free\<close> returns (by the
  \<open>return\<close> at line 273 or by leaving the loop), \<open>Inl\<close> holds the state and the variables
  \<open>address\<close>, \<open>index\<close> and \<open>order\<close> with which the body runs again.
\<close>

definition free_body :: "state \<Rightarrow> nat \<Rightarrow> nat \<Rightarrow> int \<Rightarrow> (state \<times> nat \<times> nat \<times> int) + state" where
  "free_body s address index ord =
     (let insert_block = s\<lparr>page_order := (page_order s)(index := UNSET),
                            free_area := (free_area s)(ord := index # free_area s ord)\<rparr>
      in case find_buddy s address ord of
           None \<Rightarrow> Inr insert_block
         | Some current_page \<Rightarrow>
             if BUDDY_ADDR address ord \<noteq> PAGE_TO_ADDR current_page then Inr insert_block
             else
               (let address' = (if address > PAGE_TO_ADDR current_page
                                then PAGE_TO_ADDR current_page else address);
                    index' = (if address > PAGE_TO_ADDR current_page
                              then ADDR_TO_PAGE (PAGE_TO_ADDR current_page) else index);
                    s' = s\<lparr>free_area := (free_area s)(ord := remove1 current_page (free_area s ord))\<rparr>
                in if ord < MAX_ORDER then Inl (s', address', index', ord + 1) else Inr s'))"

lemma free_body_continues:
  "free_body s address index ord = Inl (s', address', index', ord') \<Longrightarrow>
     ord < MAX_ORDER \<and> ord' = ord + 1"
  by (auto simp: free_body_def Let_def split: option.splits if_splits)

function buddy_free_loop :: "state \<Rightarrow> nat \<Rightarrow> nat \<Rightarrow> int \<Rightarrow> state" where
  "buddy_free_loop s address index ord =
     (case free_body s address index ord of
        Inr s' \<Rightarrow> s'
      | Inl (s', address', index', ord') \<Rightarrow> buddy_free_loop s' address' index' ord')"
  by pat_completeness auto
termination
  by (relation "measure (\<lambda>(s, address, index, ord). nat (MAX_ORDER - ord))")
     (auto dest!: free_body_continues)

declare buddy_free_loop.simps [simp del]

text \<open>
  The orders at which the loop body runs, in sequence: each execution of the body indexes
  \<open>free_area\<close> with exactly its current \<open>order\<close>. The function follows \<open>buddy_free_loop\<close>
  through the same \<open>free_body\<close>.
\<close>

function free_orders :: "state \<Rightarrow> nat \<Rightarrow> nat \<Rightarrow> int \<Rightarrow> int list" where
  "free_orders s address index ord =
     ord # (case free_body s address index ord of
              Inr s' \<Rightarrow> []
            | Inl (s', address', index', ord') \<Rightarrow> free_orders s' address' index' ord')"
  by pat_completeness auto
termination
  by (relation "measure (\<lambda>(s, address, index, ord). nat (MAX_ORDER - ord))")
     (auto dest!: free_body_continues)

declare free_orders.simps [simp del]

text \<open>
  \<open>buddy_free\<close> reads \<open>g_pages[index].order\<close> and enters the loop. With a page index beyond
  \<open>g_pages\<close>, or an order that is no index of an initialised free list (as \<open>-1\<close>, the
  cleared order), the C program has no defined behaviour: the model returns \<open>None\<close>.
\<close>

definition buddy_free :: "state \<Rightarrow> nat \<Rightarrow> state option" where
  "buddy_free s addr =
     (let index = ADDR_TO_PAGE addr; ord = page_order s index
      in if N_PAGES \<le> index \<or> ord < MIN_ORDER \<or> MAX_ORDER < ord then None
         else Some (buddy_free_loop s addr index ord))"

section \<open>Dump (buddy.c, lines 293--305)\<close>

function dec :: "nat \<Rightarrow> string" where
  "dec n = (if n < 10 then [''0123456789'' ! n] else dec (n div 10) @ [''0123456789'' ! (n mod 10)])"
  by pat_completeness auto
termination
  by (relation "measure id") auto

declare dec.simps [simp del]

function buddy_dump_loop :: "state \<Rightarrow> int \<Rightarrow> string" where
  "buddy_dump_loop s k =
     (if k \<le> MAX_ORDER then
        dec (length (free_area s k)) @ '':'' @ dec (shl1 k div 1024) @ ''K '' @ buddy_dump_loop s (k + 1)
      else [])"
  by pat_completeness auto
termination
  by (relation "measure (\<lambda>(s, k). nat (MAX_ORDER + 1 - k))") auto

declare buddy_dump_loop.simps [simp del]

definition buddy_dump :: "state \<Rightarrow> string" where
  "buddy_dump s = buddy_dump_loop s MIN_ORDER @ [CHR 0x0A]"

section \<open>Runs of the allocator\<close>

text \<open>
  A run is \<open>buddy_init\<close> followed by calls of \<open>buddy_alloc\<close> and \<open>buddy_free\<close>. Beside the
  state, a run keeps the live allocations: the addresses that \<open>buddy_alloc\<close> has returned and
  that have not been freed since, each with the requested order of its call. \<open>Free\<close> of an
  address that is not live breaks the precondition of \<open>buddy_free\<close> and ends the run with
  \<open>None\<close>. A failing \<open>buddy_alloc\<close> is part of a run like a successful one.
\<close>

datatype op = Alloc int | Free nat

type_synonym live = "(nat \<times> int) list"

fun step :: "state \<times> live \<Rightarrow> op \<Rightarrow> (state \<times> live) option" where
  "step (s, L) (Alloc sz) =
     (case buddy_alloc s sz of
        (Inr A, s') \<Rightarrow> Some (s', (A, REQ_ORDER sz) # L)
      | (Inl e, s') \<Rightarrow> Some (s', L))"
| "step (s, L) (Free A) =
     (case map_of L A of
        None \<Rightarrow> None
      | Some r \<Rightarrow>
          (case buddy_free s A of
             None \<Rightarrow> None
           | Some s' \<Rightarrow> Some (s', remove1 (A, r) L)))"

fun run_from :: "state \<times> live \<Rightarrow> op list \<Rightarrow> (state \<times> live) option" where
  "run_from c [] = Some c"
| "run_from c (x # xs) = (case step c x of None \<Rightarrow> None | Some c' \<Rightarrow> run_from c' xs)"

definition run :: "op list \<Rightarrow> (state \<times> live) option" where
  "run ops = run_from (buddy_init, []) ops"

section \<open>The iterative algorithm of the specification\<close>

text \<open>
  The smallest order \<open>i\<close> from \<open>k\<close> up to \<open>MAX_ORDER\<close> whose free list is not empty.
\<close>

function first_nonempty :: "state \<Rightarrow> int \<Rightarrow> int option" where
  "first_nonempty s k =
     (if MAX_ORDER < k then None
      else if free_area s k \<noteq> [] then Some k
      else first_nonempty s (k + 1))"
  by pat_completeness auto
termination
  by (relation "measure (\<lambda>(s, k). nat (MAX_ORDER + 1 - k))") auto

declare first_nonempty.simps [simp del]

text \<open>
  The allocation algorithm in the words of the specification (section 4.2): compute the
  requested order \<open>r\<close>; find the smallest non-empty order \<open>i\<close> in \<open>[r, MAX_ORDER]\<close>; remove
  the head \<open>A\<close> of \<open>free_lists[i]\<close>; for \<open>j\<close> from \<open>i - 1\<close> down to \<open>r\<close>, insert the right half at
  \<open>A + 2^j\<close> at the head of \<open>free_lists[j]\<close> and set the order field of its page record to \<open>j\<close>;
  set the order field of the page record of \<open>A\<close> to \<open>r\<close> and return \<open>A\<close>.
\<close>

function spec_descend :: "state \<Rightarrow> nat \<Rightarrow> int \<Rightarrow> int \<Rightarrow> state" where
  "spec_descend s A j r =
     (if j < r then s
      else spec_descend
             (s\<lparr>free_area := (free_area s)(j := ADDR_TO_PAGE (A + shl1 j) # free_area s j),
                page_order := (page_order s)(ADDR_TO_PAGE (A + shl1 j) := j)\<rparr>)
             A (j - 1) r)"
  by pat_completeness auto
termination
  by (relation "measure (\<lambda>(s, A, j, r). nat (j + 1 - r))") auto

declare spec_descend.simps [simp del]

definition spec_allocate :: "state \<Rightarrow> int \<Rightarrow> (error + nat) \<times> state" where
  "spec_allocate s sz =
     (if sz \<le> 0 then (Inl InvalidSize, s)
      else let r = REQ_ORDER sz in
        if MAX_ORDER < r then (Inl OutOfMemory, s)
        else case first_nonempty s r of
               None \<Rightarrow> (Inl OutOfMemory, s)
             | Some i \<Rightarrow>
                 (case free_area s i of
                    [] \<Rightarrow> (Inl OutOfMemory, s)
                  | p # rest \<Rightarrow>
                      (let A = PAGE_TO_ADDR p;
                           s1 = s\<lparr>free_area := (free_area s)(i := rest)\<rparr>;
                           s2 = spec_descend s1 A (i - 1) r
                       in (Inr A, s2\<lparr>page_order := (page_order s2)(ADDR_TO_PAGE A := r)\<rparr>))))"

section \<open>Blocks, coverage and the invariant of runs\<close>

text \<open>
  The bytes of the block of order \<open>k\<close> at address \<open>A\<close> are \<open>[A, A + 2^k)\<close>. Bytes are collected
  in multisets, so that a byte lying in two blocks is counted twice.
\<close>

definition block_range :: "nat \<Rightarrow> int \<Rightarrow> nat set" where
  "block_range A k = {A ..< A + shl1 k}"

definition block_bytes :: "nat \<Rightarrow> int \<Rightarrow> nat multiset" where
  "block_bytes A k = mset_set (block_range A k)"

definition list_bytes :: "int \<Rightarrow> nat list \<Rightarrow> nat multiset" where
  "list_bytes k ps = sum_list (map (\<lambda>p. block_bytes (PAGE_TO_ADDR p) k) ps)"

definition free_bytes :: "state \<Rightarrow> nat multiset" where
  "free_bytes s = (\<Sum>k \<in> {MIN_ORDER..MAX_ORDER}. list_bytes k (free_area s k))"

definition live_bytes :: "live \<Rightarrow> nat multiset" where
  "live_bytes L = sum_list (map (\<lambda>(A, r). block_bytes A r) L)"

definition arena_bytes :: "nat multiset" where
  "arena_bytes = mset_set {0 ..< shl1 MAX_ORDER}"

definition coverage :: "state \<Rightarrow> live \<Rightarrow> bool" where
  "coverage s L \<longleftrightarrow> free_bytes s + live_bytes L = arena_bytes"

definition free_wf :: "state \<Rightarrow> bool" where
  "free_wf s \<longleftrightarrow>
     (\<forall>k p. MIN_ORDER \<le> k \<and> k \<le> MAX_ORDER \<and> p \<in> set (free_area s k) \<longrightarrow>
        shl1 k dvd PAGE_TO_ADDR p \<and> PAGE_TO_ADDR p + shl1 k \<le> shl1 MAX_ORDER)"

definition live_ok :: "state \<Rightarrow> live \<Rightarrow> bool" where
  "live_ok s L \<longleftrightarrow>
     (\<forall>(A, r) \<in> set L. MIN_ORDER \<le> r \<and> r \<le> MAX_ORDER \<and> shl1 r dvd A \<and>
        page_order s (ADDR_TO_PAGE A) = r)"

definition invariant :: "state \<Rightarrow> live \<Rightarrow> bool" where
  "invariant s L \<longleftrightarrow> coverage s L \<and> free_wf s \<and> live_ok s L"

text \<open>
  The state that the allocation descent leaves, in closed form: the head \<open>p\<close> of
  \<open>free_area[i]\<close> is removed, every order \<open>j\<close> with \<open>r \<le> j < i\<close> (whose list was empty) holds
  the right half of the split at \<open>j\<close>, and only the order field of page \<open>p\<close> is written.
\<close>

definition split_state :: "state \<Rightarrow> int \<Rightarrow> int \<Rightarrow> nat \<Rightarrow> nat list \<Rightarrow> state" where
  "split_state s i r p rest =
     s\<lparr>free_area := (\<lambda>j. if j = i then rest
                          else if r \<le> j \<and> j < i then [p + shl1 j div PAGE_SIZE]
                          else free_area s j),
       page_order := (page_order s)(p := r)\<rparr>"

section \<open>Coalescing in closed form\<close>

text \<open>
  \<open>align_down A k\<close> is the address of the order-\<open>k\<close> block that contains \<open>A\<close>: the minimum
  address of that range. The buddy that a block starting from \<open>A\<close> meets at order \<open>j\<close> is
  the buddy of \<open>align_down A j\<close>.
\<close>

definition align_down :: "nat \<Rightarrow> int \<Rightarrow> nat" where
  "align_down A k = A - A mod shl1 k"

definition buddy_page :: "nat \<Rightarrow> int \<Rightarrow> nat" where
  "buddy_page A j = ADDR_TO_PAGE (BUDDY_ADDR (align_down A j) j)"

text \<open>
  The order at which coalescing stops: the first order from \<open>k\<close> on that is \<open>MAX_ORDER\<close> or
  whose free list does not hold the buddy.
\<close>

function final_order :: "state \<Rightarrow> nat \<Rightarrow> int \<Rightarrow> int" where
  "final_order s A k =
     (if k < MAX_ORDER \<and> buddy_page A k \<in> set (free_area s k) then final_order s A (k + 1)
      else k)"
  by pat_completeness auto
termination
  by (relation "measure (\<lambda>(s, A, k). nat (MAX_ORDER - k))") auto

declare final_order.simps [simp del]

text \<open>
  The state after freeing the block of order \<open>r\<close> at \<open>A\<close> with final order \<open>k\<close>: the buddies
  of the orders below \<open>k\<close> are unlinked and the coalesced block is linked at order \<open>k\<close>, its
  order field cleared.
\<close>

definition coalesced_state :: "state \<Rightarrow> nat \<Rightarrow> int \<Rightarrow> int \<Rightarrow> state" where
  "coalesced_state s A r k =
     s\<lparr>free_area := (\<lambda>j. if j = k then ADDR_TO_PAGE (align_down A k) # free_area s k
                          else if r \<le> j \<and> j < k then remove1 (buddy_page A j) (free_area s j)
                          else free_area s j),
       page_order := (page_order s)(ADDR_TO_PAGE (align_down A k) := UNSET)\<rparr>"

definition free_pre :: "state \<Rightarrow> nat \<Rightarrow> int \<Rightarrow> bool" where
  "free_pre s a ord \<longleftrightarrow>
     free_wf s \<and> MIN_ORDER \<le> ord \<and> ord \<le> MAX_ORDER \<and> shl1 ord dvd a \<and>
     a + shl1 ord \<le> shl1 MAX_ORDER"

text \<open>The free lists of the orders \<open>MIN_ORDER\<close> to \<open>MAX_ORDER\<close>, in this sequence.\<close>

definition free_lists :: "state \<Rightarrow> nat list list" where
  "free_lists s = map (free_area s) [MIN_ORDER..MAX_ORDER]"

section \<open>Arithmetic of orders, pages and addresses\<close>

lemma PAGE_SIZE_eq: "PAGE_SIZE = 4096"
  by (simp add: PAGE_SIZE_def shl1_def MIN_ORDER_def)

lemma N_PAGES_eq: "N_PAGES = 256"
  by (simp add: N_PAGES_def PAGE_SIZE_eq shl1_def MAX_ORDER_def)

lemma shl1_step: "0 \<le> k \<Longrightarrow> shl1 (k + 1) = 2 * shl1 k"
  by (simp add: shl1_def nat_add_distrib)

lemma shl1_pos: "0 < shl1 k"
  by (simp add: shl1_def)

lemma shl1_mono: "j \<le> k \<Longrightarrow> shl1 j \<le> shl1 k"
  by (simp add: shl1_def nat_mono)

lemma shl1_dvd: "j \<le> k \<Longrightarrow> shl1 j dvd shl1 k"
  by (simp add: shl1_def le_imp_power_dvd nat_mono)

lemma shl1_strict: "0 \<le> j \<Longrightarrow> j < k \<Longrightarrow> 2 * shl1 j \<le> shl1 k"
  using shl1_mono[of "j + 1" k] by (simp add: shl1_step)

lemma PAGE_SIZE_dvd_shl1: "MIN_ORDER \<le> k \<Longrightarrow> PAGE_SIZE dvd shl1 k"
  unfolding PAGE_SIZE_def by (rule shl1_dvd)

lemma PAGE_SIZE_pos: "0 < PAGE_SIZE"
  by (simp add: PAGE_SIZE_eq)

lemma ADDR_TO_PAGE_inverse [simp]: "ADDR_TO_PAGE (PAGE_TO_ADDR p) = p"
  by (simp add: ADDR_TO_PAGE_def PAGE_TO_ADDR_def PAGE_SIZE_eq)

lemma PAGE_TO_ADDR_inverse: "PAGE_SIZE dvd A \<Longrightarrow> PAGE_TO_ADDR (ADDR_TO_PAGE A) = A"
  by (simp add: ADDR_TO_PAGE_def PAGE_TO_ADDR_def)

lemma PAGE_TO_ADDR_right:
  "MIN_ORDER \<le> k \<Longrightarrow> PAGE_TO_ADDR (p + shl1 k div PAGE_SIZE) = PAGE_TO_ADDR p + shl1 k"
  using PAGE_SIZE_dvd_shl1[of k] by (simp add: PAGE_TO_ADDR_def add_mult_distrib)

lemma PAGE_TO_ADDR_less: "PAGE_TO_ADDR p < shl1 MAX_ORDER \<Longrightarrow> p < N_PAGES"
  by (simp add: PAGE_TO_ADDR_def N_PAGES_eq PAGE_SIZE_eq shl1_def MAX_ORDER_def)

lemma REQ_ORDER_shl1: "MIN_ORDER \<le> k \<Longrightarrow> REQ_ORDER (int (shl1 k)) = k"
  by (simp add: REQ_ORDER_def shl1_def clog2_pow2 MIN_ORDER_def)

section \<open>Allocation: the recursion in closed form\<close>

lemma alloc_loop_scan:
  assumes "a \<le> i" "i \<le> MAX_ORDER" "free_area s i \<noteq> []"
    and "\<forall>j. a \<le> j \<and> j < i \<longrightarrow> free_area s j = []"
  shows "buddy_alloc_loop s a req = buddy_split s i req"
  using assms
proof (induction "nat (i - a)" arbitrary: a)
  case 0
  then have "a = i" by simp
  then show ?case using 0 by (subst buddy_alloc_loop.simps) simp
next
  case (Suc n)
  then have lt: "a < i" by linarith
  then have e: "free_area s a = []" using Suc.prems by simp
  have "buddy_alloc_loop s a req = buddy_alloc_loop s (a + 1) req"
    using lt Suc.prems(2) e by (subst buddy_alloc_loop.simps) simp
  also have "\<dots> = buddy_split s i req"
    using Suc.hyps(2) lt Suc.prems by (intro Suc.hyps(1)) auto
  finally show ?case .
qed

lemma alloc_loop_none:
  assumes "\<forall>j. a \<le> j \<and> j \<le> MAX_ORDER \<longrightarrow> free_area s j = []"
  shows "buddy_alloc_loop s a req = (Inl OutOfMemory, s)"
  using assms
proof (induction "nat (MAX_ORDER + 1 - a)" arbitrary: a)
  case 0
  then show ?case by (subst buddy_alloc_loop.simps) simp
next
  case (Suc n)
  then have "a \<le> MAX_ORDER" by linarith
  then have "buddy_alloc_loop s a req = buddy_alloc_loop s (a + 1) req"
    using Suc.prems by (subst buddy_alloc_loop.simps) simp
  also have "\<dots> = (Inl OutOfMemory, s)"
    using Suc.hyps(2) Suc.prems by (intro Suc.hyps(1)) auto
  finally show ?case .
qed

lemma split_state_base:
  "split_state s i i p rest = s\<lparr>free_area := (free_area s)(i := rest), page_order := (page_order s)(p := i)\<rparr>"
  by (auto simp: split_state_def fun_eq_iff)

lemma split_state_step:
  "r < i \<Longrightarrow> split_state s i r p rest =
     (split_state s i (r + 1) p rest)
       \<lparr>free_area := (free_area (split_state s i (r + 1) p rest))(r := [p + shl1 r div PAGE_SIZE]),
        page_order := (page_order (split_state s i (r + 1) p rest))(p := r)\<rparr>"
  by (auto simp: split_state_def fun_eq_iff)

lemma split_closed:
  assumes "MIN_ORDER \<le> r" "r \<le> i" "i \<le> MAX_ORDER" "free_area s i = p # rest"
    and "\<forall>j. r \<le> j \<and> j < i \<longrightarrow> free_area s j = []"
    and "\<forall>j. r \<le> j \<and> j < i \<longrightarrow> p + shl1 j div PAGE_SIZE < N_PAGES"
  shows "buddy_split s i r = (Inr (PAGE_TO_ADDR p), split_state s i r p rest)"
  using assms
proof (induction "nat (i - r)" arbitrary: r)
  case 0
  then have "r = i" by simp
  then show ?case using 0
    by (subst buddy_split.simps) (simp add: split_state_base)
next
  case (Suc n)
  then have lt: "r < i" by linarith
  have ih: "buddy_split s i (r + 1) = (Inr (PAGE_TO_ADDR p), split_state s i (r + 1) p rest)"
    using Suc.hyps(2) lt Suc.prems by (intro Suc.hyps(1)) auto
  have sz: "\<not> int (shl1 (r + 1)) \<le> 0" by (simp add: shl1_def)
  have req: "REQ_ORDER (int (shl1 (r + 1))) = r + 1"
    using Suc.prems(1) by (intro REQ_ORDER_shl1) simp
  have "buddy_alloc s (int (shl1 (r + 1))) = buddy_alloc_loop s (r + 1) (r + 1)"
    using sz req by (subst buddy_alloc.simps) simp
  also have "\<dots> = buddy_split s i (r + 1)"
    using lt Suc.prems by (intro alloc_loop_scan) auto
  finally have rec: "buddy_alloc s (int (shl1 (r + 1))) = (Inr (PAGE_TO_ADDR p), split_state s i (r + 1) p rest)"
    using ih by simp
  have right: "\<not> N_PAGES \<le> p + shl1 r div PAGE_SIZE"
    using Suc.prems(6) lt by (simp add: not_le)
  have e: "free_area (split_state s i (r + 1) p rest) r = []"
    using lt Suc.prems(5) by (simp add: split_state_def)
  show ?case
    using lt Suc.prems(1,3) rec right e
    by (subst buddy_split.simps) (simp add: split_state_step[OF lt])
qed

lemma first_nonempty_Some:
  "first_nonempty s a = Some i \<Longrightarrow>
     a \<le> i \<and> i \<le> MAX_ORDER \<and> free_area s i \<noteq> [] \<and> (\<forall>j. a \<le> j \<and> j < i \<longrightarrow> free_area s j = [])"
proof (induction s a rule: first_nonempty.induct)
  case (1 s k)
  show ?case
  proof (cases "MAX_ORDER < k \<or> free_area s k \<noteq> []")
    case True
    then show ?thesis using "1.prems" by (subst (asm) first_nonempty.simps) (auto split: if_splits)
  next
    case False
    then have "first_nonempty s (k + 1) = Some i"
      using "1.prems" by (subst (asm) first_nonempty.simps) simp
    then have "k + 1 \<le> i \<and> i \<le> MAX_ORDER \<and> free_area s i \<noteq> [] \<and> (\<forall>j. k + 1 \<le> j \<and> j < i \<longrightarrow> free_area s j = [])"
      using False by (intro "1.IH") auto
    moreover have "\<And>j. k \<le> j \<Longrightarrow> j = k \<or> k + 1 \<le> j" by linarith
    ultimately show ?thesis using False by auto
  qed
qed

lemma first_nonempty_None:
  "first_nonempty s a = None \<Longrightarrow> (\<forall>j. a \<le> j \<and> j \<le> MAX_ORDER \<longrightarrow> free_area s j = [])"
proof (induction s a rule: first_nonempty.induct)
  case (1 s k)
  show ?case
  proof (cases "MAX_ORDER < k")
    case True
    then show ?thesis by auto
  next
    case False
    then have e: "free_area s k = []" and n: "first_nonempty s (k + 1) = None"
      using "1.prems" by (subst (asm) first_nonempty.simps, simp split: if_splits)+
    then have "\<forall>j. k + 1 \<le> j \<and> j \<le> MAX_ORDER \<longrightarrow> free_area s j = []"
      using False by (intro "1.IH") auto
    moreover have "\<And>j. k \<le> j \<Longrightarrow> j = k \<or> k + 1 \<le> j" by linarith
    ultimately show ?thesis using e by auto
  qed
qed

lemma alloc_loop_first:
  "buddy_alloc_loop s a req =
     (case first_nonempty s a of None \<Rightarrow> (Inl OutOfMemory, s) | Some i \<Rightarrow> buddy_split s i req)"
proof (cases "first_nonempty s a")
  case None
  then show ?thesis using alloc_loop_none[OF first_nonempty_None[OF None]] by simp
next
  case (Some i)
  from first_nonempty_Some[OF Some] show ?thesis
    using Some by (simp add: alloc_loop_scan)
qed

lemma buddy_alloc_first:
  "0 < sz \<Longrightarrow> buddy_alloc s sz =
     (case first_nonempty s (REQ_ORDER sz) of
        None \<Rightarrow> (Inl OutOfMemory, s)
      | Some i \<Rightarrow> buddy_split s i (REQ_ORDER sz))"
  by (subst buddy_alloc.simps) (simp add: alloc_loop_first)

lemma REQ_ORDER_ge: "MIN_ORDER \<le> REQ_ORDER sz"
  by (simp add: REQ_ORDER_def)

lemma split_guard:
  assumes "MIN_ORDER \<le> r" "r \<le> i" "i \<le> MAX_ORDER" "free_area s i = p # rest"
    and "\<forall>j. r \<le> j \<and> j < i \<longrightarrow> free_area s j = []"
    and "fst (buddy_split s i r) = Inr A"
  shows "\<forall>j. r \<le> j \<and> j < i \<longrightarrow> p + shl1 j div PAGE_SIZE < N_PAGES"
  using assms
proof (induction "nat (i - r)" arbitrary: r A)
  case 0
  then show ?case by simp
next
  case (Suc n)
  then have lt: "r < i" by linarith
  have sz: "0 < int (shl1 (r + 1))" by (simp add: shl1_def)
  have req: "REQ_ORDER (int (shl1 (r + 1))) = r + 1"
    using Suc.prems(1) by (intro REQ_ORDER_shl1) simp
  have "buddy_alloc s (int (shl1 (r + 1))) = buddy_alloc_loop s (r + 1) (r + 1)"
    using sz req by (subst buddy_alloc.simps) simp
  also have "\<dots> = buddy_split s i (r + 1)"
    using lt Suc.prems by (intro alloc_loop_scan) auto
  finally have rec: "buddy_alloc s (int (shl1 (r + 1))) = buddy_split s i (r + 1)" .
  obtain res s1 where rs: "buddy_split s i (r + 1) = (res, s1)" by (cases "buddy_split s i (r + 1)")
  have unf: "buddy_split s i r =
      (case res of Inl e \<Rightarrow> (Inl Undefined, s1)
       | Inr block_address \<Rightarrow>
          (let left = ADDR_TO_PAGE block_address; right = left + shl1 r div PAGE_SIZE
           in if N_PAGES \<le> right then (Inl Undefined, s1)
              else (Inr (PAGE_TO_ADDR left),
                    s1\<lparr>free_area := (free_area s1)(r := right # free_area s1 r),
                       page_order := (page_order s1)(left := r)\<rparr>)))"
    using lt Suc.prems(1,3) by (subst buddy_split.simps) (simp add: rec rs)
  from Suc.prems(6) unf obtain B where B: "res = Inr B"
    by (cases res) auto
  have g1: "\<forall>j. r + 1 \<le> j \<and> j < i \<longrightarrow> p + shl1 j div PAGE_SIZE < N_PAGES"
    using Suc.hyps(2) lt Suc.prems rs B by (intro Suc.hyps(1)[of "r + 1" B]) auto
  have "buddy_split s i (r + 1) = (Inr (PAGE_TO_ADDR p), split_state s i (r + 1) p rest)"
    using lt Suc.prems g1 by (intro split_closed) auto
  then have "B = PAGE_TO_ADDR p" using rs B by simp
  then have "p + shl1 r div PAGE_SIZE < N_PAGES"
    using Suc.prems(6) unf B by (auto simp: Let_def split: if_splits)
  moreover have "\<And>j. r \<le> j \<Longrightarrow> j = r \<or> r + 1 \<le> j" by linarith
  ultimately show ?case using g1 by auto
qed

lemma free_wf_guard:
  assumes "free_wf s" "MIN_ORDER \<le> r" "i \<le> MAX_ORDER" "free_area s i = p # rest"
  shows "\<forall>j. r \<le> j \<and> j < i \<longrightarrow> p + shl1 j div PAGE_SIZE < N_PAGES"
proof (intro allI impI)
  fix j assume j: "r \<le> j \<and> j < i"
  have "PAGE_TO_ADDR p + shl1 i \<le> shl1 MAX_ORDER"
    using assms j unfolding free_wf_def by (metis list.set_intros(1) order.trans less_imp_le)
  moreover have "shl1 j < shl1 i" using j assms(2) by (simp add: shl1_def MIN_ORDER_def)
  ultimately have "PAGE_TO_ADDR (p + shl1 j div PAGE_SIZE) < shl1 MAX_ORDER"
    using j assms(2) by (simp add: PAGE_TO_ADDR_right)
  then show "p + shl1 j div PAGE_SIZE < N_PAGES" by (rule PAGE_TO_ADDR_less)
qed

section \<open>Bytes of blocks and of free lists\<close>

lemma finite_block_range [simp]: "finite (block_range A k)"
  by (simp add: block_range_def)

lemma count_block_bytes: "count (block_bytes A k) x = (if x \<in> block_range A k then 1 else 0)"
  by (simp add: block_bytes_def count_mset_set')

lemma count_arena_bytes: "count arena_bytes x \<le> 1"
  by (simp add: arena_bytes_def count_mset_set')

lemma list_bytes_Nil [simp]: "list_bytes k [] = {#}"
  by (simp add: list_bytes_def)

lemma list_bytes_Cons [simp]:
  "list_bytes k (p # ps) = block_bytes (PAGE_TO_ADDR p) k + list_bytes k ps"
  by (simp add: list_bytes_def)

lemma list_bytes_remove1:
  "p \<in> set ps \<Longrightarrow> list_bytes k ps = block_bytes (PAGE_TO_ADDR p) k + list_bytes k (remove1 p ps)"
  unfolding list_bytes_def by (rule sum_list_map_remove1)

lemma live_bytes_Nil [simp]: "live_bytes [] = {#}"
  by (simp add: live_bytes_def)

lemma live_bytes_Cons [simp]: "live_bytes ((A, r) # L) = block_bytes A r + live_bytes L"
  by (simp add: live_bytes_def)

lemma live_bytes_remove1:
  "(A, r) \<in> set L \<Longrightarrow> live_bytes L = block_bytes A r + live_bytes (remove1 (A, r) L)"
  unfolding live_bytes_def using sum_list_map_remove1[of "(A, r)" L "\<lambda>(A, r). block_bytes A r"] by simp

lemma free_bytes_page_order [simp]: "free_bytes (s\<lparr>page_order := f\<rparr>) = free_bytes s"
  by (simp add: free_bytes_def)

lemma free_bytes_update:
  assumes "MIN_ORDER \<le> k" "k \<le> MAX_ORDER"
  shows "free_bytes (s\<lparr>free_area := (free_area s)(k := xs)\<rparr>) + list_bytes k (free_area s k)
         = free_bytes s + list_bytes k xs"
proof -
  let ?S = "{MIN_ORDER..MAX_ORDER}"
  let ?R = "\<Sum>j \<in> ?S - {k}. list_bytes j (free_area s j)"
  have k: "k \<in> ?S" using assms by simp
  have "free_bytes s = list_bytes k (free_area s k) + ?R"
    unfolding free_bytes_def using k by (subst sum.remove[of ?S k]) simp_all
  moreover have "free_bytes (s\<lparr>free_area := (free_area s)(k := xs)\<rparr>) = list_bytes k xs + ?R"
    unfolding free_bytes_def using k by (subst sum.remove[of ?S k]) simp_all
  ultimately show ?thesis by simp
qed

lemma block_bytes_split:
  assumes "0 \<le> k"
  shows "block_bytes A (k + 1) = block_bytes A k + block_bytes (A + shl1 k) k"
proof -
  have "block_range A (k + 1) = block_range A k \<union> block_range (A + shl1 k) k"
    using assms by (auto simp: block_range_def shl1_step)
  moreover have "block_range A k \<inter> block_range (A + shl1 k) k = {}"
    by (auto simp: block_range_def)
  ultimately show ?thesis by (simp add: block_bytes_def mset_set_Union)
qed

lemma count_list_bytes_ge:
  "p \<in> set ps \<Longrightarrow> count (block_bytes (PAGE_TO_ADDR p) k) x \<le> count (list_bytes k ps) x"
  by (induction ps) auto

lemma count_free_bytes_ge:
  assumes "MIN_ORDER \<le> k" "k \<le> MAX_ORDER" "p \<in> set (free_area s k)"
  shows "count (block_bytes (PAGE_TO_ADDR p) k) x \<le> count (free_bytes s) x"
proof -
  have "count (block_bytes (PAGE_TO_ADDR p) k) x \<le> count (list_bytes k (free_area s k)) x"
    using assms(3) by (rule count_list_bytes_ge)
  also have "\<dots> \<le> (\<Sum>j \<in> {MIN_ORDER..MAX_ORDER}. count (list_bytes j (free_area s j)) x)"
    using assms(1,2) by (intro member_le_sum) simp_all
  also have "\<dots> = count (free_bytes s) x"
    by (simp add: free_bytes_def count_sum)
  finally show ?thesis .
qed

lemma count_live_bytes_ge:
  "(B, k) \<in> set L \<Longrightarrow> count (block_bytes B k) x \<le> count (live_bytes L) x"
  by (induction L) auto

lemma coverage_free_live_disjoint:
  assumes "coverage s L" "MIN_ORDER \<le> k" "k \<le> MAX_ORDER" "p \<in> set (free_area s k)" "(B, r) \<in> set L"
  shows "block_range (PAGE_TO_ADDR p) k \<inter> block_range B r = {}"
proof (rule ccontr)
  assume "\<not> ?thesis"
  then obtain x where x: "x \<in> block_range (PAGE_TO_ADDR p) k" "x \<in> block_range B r" by auto
  have "1 \<le> count (free_bytes s) x"
    using count_free_bytes_ge[OF assms(2,3,4), of x] x(1) by (simp add: count_block_bytes)
  moreover have "1 \<le> count (live_bytes L) x"
    using count_live_bytes_ge[OF assms(5), of x] x(2) by (simp add: count_block_bytes)
  ultimately have "2 \<le> count (free_bytes s + live_bytes L) x"
    by (simp only: count_union)
  moreover have "count (free_bytes s + live_bytes L) x = count arena_bytes x"
    using assms(1) by (simp only: coverage_def)
  ultimately show False using count_arena_bytes[of x] by linarith
qed

lemma coverage_live_head_disjoint:
  assumes "coverage s ((A, r) # L)" "(B, k) \<in> set L"
  shows "block_range A r \<inter> block_range B k = {}"
proof (rule ccontr)
  assume "\<not> ?thesis"
  then obtain x where x: "x \<in> block_range A r" "x \<in> block_range B k" by auto
  have "1 \<le> count (live_bytes L) x"
    using count_live_bytes_ge[OF assms(2), of x] x(2) by (simp add: count_block_bytes)
  moreover have "count (block_bytes A r) x = 1"
    using x(1) by (simp add: count_block_bytes)
  ultimately have "2 \<le> count (free_bytes s + live_bytes ((A, r) # L)) x"
    by (simp only: count_union live_bytes_Cons)
  moreover have "count (free_bytes s + live_bytes ((A, r) # L)) x = count arena_bytes x"
    using assms(1) by (simp only: coverage_def)
  ultimately show False using count_arena_bytes[of x] by linarith
qed

section \<open>Allocation keeps the invariant\<close>

lemma split_state_bytes:
  assumes "MIN_ORDER \<le> r" "r \<le> i" "i \<le> MAX_ORDER" "free_area s i = p # rest"
    and "\<forall>j. r \<le> j \<and> j < i \<longrightarrow> free_area s j = []"
  shows "free_bytes (split_state s i r p rest) + block_bytes (PAGE_TO_ADDR p) r = free_bytes s"
  using assms
proof (induction "nat (i - r)" arbitrary: r)
  case 0
  then have ri: "r = i" by simp
  have "MIN_ORDER \<le> i" using 0 ri by simp
  from free_bytes_update[OF this \<open>i \<le> MAX_ORDER\<close>, of s rest]
  show ?case using 0 ri by (simp add: split_state_base)
next
  case (Suc n)
  then have lt: "r < i" by linarith
  let ?t = "split_state s i (r + 1) p rest"
  have ih: "free_bytes ?t + block_bytes (PAGE_TO_ADDR p) (r + 1) = free_bytes s"
    using Suc.hyps(2) lt Suc.prems by (intro Suc.hyps(1)) auto
  have e: "free_area ?t r = []"
    using lt Suc.prems(5) by (simp add: split_state_def)
  have r: "MIN_ORDER \<le> r" "r \<le> MAX_ORDER" using Suc.prems lt by auto
  have "free_bytes (split_state s i r p rest) =
        free_bytes ?t + block_bytes (PAGE_TO_ADDR p + shl1 r) r"
    using free_bytes_update[OF r, of ?t "[p + shl1 r div PAGE_SIZE]"] e r(1)
    by (simp add: split_state_step[OF lt] PAGE_TO_ADDR_right)
  moreover have "block_bytes (PAGE_TO_ADDR p) (r + 1) =
        block_bytes (PAGE_TO_ADDR p) r + block_bytes (PAGE_TO_ADDR p + shl1 r) r"
    using r(1) by (intro block_bytes_split) (simp add: MIN_ORDER_def)
  ultimately show ?case using ih by (simp add: ac_simps)
qed

lemma split_state_wf:
  assumes "free_wf s" "MIN_ORDER \<le> r" "i \<le> MAX_ORDER" "free_area s i = p # rest"
  shows "free_wf (split_state s i r p rest)"
  unfolding free_wf_def
proof (intro allI impI, elim conjE)
  fix k q
  assume k: "MIN_ORDER \<le> k" "k \<le> MAX_ORDER" and q: "q \<in> set (free_area (split_state s i r p rest) k)"
  have wf: "\<And>k q. MIN_ORDER \<le> k \<Longrightarrow> k \<le> MAX_ORDER \<Longrightarrow> q \<in> set (free_area s k) \<Longrightarrow>
      shl1 k dvd PAGE_TO_ADDR q \<and> PAGE_TO_ADDR q + shl1 k \<le> shl1 MAX_ORDER"
    using assms(1) unfolding free_wf_def by blast
  consider "k = i" | "k \<noteq> i" "r \<le> k" "k < i" | "k \<noteq> i" "\<not> (r \<le> k \<and> k < i)" by blast
  then show "shl1 k dvd PAGE_TO_ADDR q \<and> PAGE_TO_ADDR q + shl1 k \<le> shl1 MAX_ORDER"
  proof cases
    case 1
    then have "q \<in> set (free_area s i)" using q assms(4) by (simp add: split_state_def)
    then show ?thesis using wf[of i q] k 1 by simp
  next
    case 2
    then have qe: "q = p + shl1 k div PAGE_SIZE" using q by (simp add: split_state_def)
    have i: "MIN_ORDER \<le> i" using 2 k by simp
    have p: "shl1 i dvd PAGE_TO_ADDR p" "PAGE_TO_ADDR p + shl1 i \<le> shl1 MAX_ORDER"
      using wf[of i p] i assms(3,4) by simp_all
    have "shl1 k dvd shl1 i" using 2 by (intro shl1_dvd) simp
    then have "shl1 k dvd PAGE_TO_ADDR p + shl1 k" using p(1) by (simp add: dvd_trans)
    moreover have "0 \<le> k" using k(1) by (simp add: MIN_ORDER_def)
    then have "2 * shl1 k \<le> shl1 i" using 2 by (intro shl1_strict) simp_all
    then have "PAGE_TO_ADDR p + shl1 k + shl1 k \<le> shl1 MAX_ORDER" using p(2) by simp
    ultimately show ?thesis using qe k(1) by (simp add: PAGE_TO_ADDR_right)
  next
    case 3
    then have "q \<in> set (free_area s k)" using q by (auto simp: split_state_def)
    then show ?thesis using wf[of k q] k by simp
  qed
qed

text \<open>The outcome of \<open>buddy_alloc\<close> in a state with well-formed free lists.\<close>

lemma buddy_alloc_wf:
  assumes "free_wf s" "0 < sz"
  shows "buddy_alloc s sz =
     (case first_nonempty s (REQ_ORDER sz) of
        None \<Rightarrow> (Inl OutOfMemory, s)
      | Some i \<Rightarrow> (Inr (PAGE_TO_ADDR (hd (free_area s i))),
                   split_state s i (REQ_ORDER sz) (hd (free_area s i)) (tl (free_area s i))))"
proof (cases "first_nonempty s (REQ_ORDER sz)")
  case None
  then show ?thesis using assms(2) by (simp add: buddy_alloc_first)
next
  case (Some i)
  note f = first_nonempty_Some[OF Some]
  then obtain p rest where pr: "free_area s i = p # rest" by (cases "free_area s i") auto
  have "buddy_split s i (REQ_ORDER sz) = (Inr (PAGE_TO_ADDR p), split_state s i (REQ_ORDER sz) p rest)"
    using f pr free_wf_guard[OF assms(1) REQ_ORDER_ge _ pr, of sz]
    by (intro split_closed) (auto simp: REQ_ORDER_ge)
  then show ?thesis using Some pr assms(2) by (simp add: buddy_alloc_first)
qed

lemma block_range_self: "A \<in> block_range A k"
  by (simp add: block_range_def shl1_pos)

lemma live_page_aligned:
  assumes "MIN_ORDER \<le> k" "shl1 k dvd B"
  shows "PAGE_TO_ADDR (ADDR_TO_PAGE B) = B"
  using assms PAGE_SIZE_dvd_shl1[OF assms(1)] by (intro PAGE_TO_ADDR_inverse) (rule dvd_trans)

lemma buddy_alloc_failure:
  assumes "free_wf s" "buddy_alloc s sz = (Inl e, s')"
  shows "s' = s \<and> e \<noteq> Undefined"
proof (cases "sz \<le> 0")
  case True
  then show ?thesis using assms(2) by (subst (asm) buddy_alloc.simps) auto
next
  case False
  then show ?thesis
    using assms(2) buddy_alloc_wf[OF assms(1), of sz]
    by (auto split: option.splits)
qed

lemma buddy_alloc_success:
  assumes "free_wf s" "buddy_alloc s sz = (Inr A, s')"
  obtains i p rest where "0 < sz" "first_nonempty s (REQ_ORDER sz) = Some i"
    "REQ_ORDER sz \<le> i" "i \<le> MAX_ORDER" "free_area s i = p # rest"
    "\<forall>j. REQ_ORDER sz \<le> j \<and> j < i \<longrightarrow> free_area s j = []"
    "A = PAGE_TO_ADDR p" "s' = split_state s i (REQ_ORDER sz) p rest"
proof -
  have sz: "0 < sz"
    using assms(2) by (subst (asm) buddy_alloc.simps) (auto split: if_splits)
  from assms(2) buddy_alloc_wf[OF assms(1) sz] obtain i where
    i: "first_nonempty s (REQ_ORDER sz) = Some i"
    and r: "A = PAGE_TO_ADDR (hd (free_area s i))"
       "s' = split_state s i (REQ_ORDER sz) (hd (free_area s i)) (tl (free_area s i))"
    by (auto split: option.splits)
  note f = first_nonempty_Some[OF i]
  then have "free_area s i = hd (free_area s i) # tl (free_area s i)" by simp
  then show ?thesis using that[OF sz i _ _ _ _ r] f by blast
qed

lemma alloc_invariant:
  assumes "invariant s L" "buddy_alloc s sz = (Inr A, s')"
  shows "invariant s' ((A, REQ_ORDER sz) # L)"
proof -
  let ?r = "REQ_ORDER sz"
  have inv: "coverage s L" "free_wf s" "live_ok s L"
    using assms(1) by (simp_all add: invariant_def)
  from buddy_alloc_success[OF inv(2) assms(2)] obtain i p rest where
    a: "0 < sz" "?r \<le> i" "i \<le> MAX_ORDER" "free_area s i = p # rest"
    "\<forall>j. ?r \<le> j \<and> j < i \<longrightarrow> free_area s j = []"
    "A = PAGE_TO_ADDR p" "s' = split_state s i ?r p rest"
    by metis
  have i: "MIN_ORDER \<le> i" using a(2) REQ_ORDER_ge[of sz] by simp
  have p: "shl1 i dvd PAGE_TO_ADDR p" "PAGE_TO_ADDR p + shl1 i \<le> shl1 MAX_ORDER"
    using inv(2) i a(3,4) unfolding free_wf_def by (metis list.set_intros(1))+
  have fb: "free_bytes s' + block_bytes A ?r = free_bytes s"
    unfolding a(6,7) using a by (intro split_state_bytes) (auto simp: REQ_ORDER_ge)
  have "free_bytes s' + live_bytes ((A, ?r) # L) = (free_bytes s' + block_bytes A ?r) + live_bytes L"
    by (simp add: ac_simps)
  also have "\<dots> = free_bytes s + live_bytes L" by (simp only: fb)
  also have "\<dots> = arena_bytes" using inv(1) by (simp only: coverage_def)
  finally have cov: "coverage s' ((A, ?r) # L)" by (simp only: coverage_def)
  have wf: "free_wf s'"
    unfolding a(7) using inv(2) a by (intro split_state_wf) (auto simp: REQ_ORDER_ge)
  have po: "page_order s' = (page_order s)(p := ?r)"
    by (simp add: a(7) split_state_def)
  have "live_ok s' ((A, ?r) # L)"
    unfolding live_ok_def
  proof (intro ballI, clarify)
    fix B k assume Bk: "(B, k) \<in> set ((A, ?r) # L)"
    show "MIN_ORDER \<le> k \<and> k \<le> MAX_ORDER \<and> shl1 k dvd B \<and> page_order s' (ADDR_TO_PAGE B) = k"
    proof (cases "(B, k) = (A, ?r)")
      case True
      have "shl1 ?r dvd shl1 i" using a(2) by (rule shl1_dvd)
      then have "shl1 ?r dvd A" using p(1) a(6) by (simp add: dvd_trans)
      then show ?thesis using True a(2,3) REQ_ORDER_ge[of sz] po a(6) by simp
    next
      case False
      then have mem: "(B, k) \<in> set L" using Bk by auto
      then have lk: "MIN_ORDER \<le> k" "k \<le> MAX_ORDER" "shl1 k dvd B" "page_order s (ADDR_TO_PAGE B) = k"
        using inv(3) unfolding live_ok_def by auto
      have "ADDR_TO_PAGE B \<noteq> p"
      proof
        assume "ADDR_TO_PAGE B = p"
        then have "B = PAGE_TO_ADDR p" using live_page_aligned[OF lk(1,3)] by simp
        then have "B \<in> block_range (PAGE_TO_ADDR p) i \<inter> block_range B k"
          using block_range_self by simp
        moreover have "block_range (PAGE_TO_ADDR p) i \<inter> block_range B k = {}"
          using inv(1) i a(3) _ mem by (rule coverage_free_live_disjoint) (simp add: a(4))
        ultimately show False by simp
      qed
      then show ?thesis using lk po by simp
    qed
  qed
  then show ?thesis using cov wf by (simp add: invariant_def)
qed

lemma init_invariant: "invariant buddy_init []"
proof -
  have "free_bytes buddy_init = (\<Sum>k \<in> {MIN_ORDER..MAX_ORDER}. if k = MAX_ORDER then block_bytes 0 MAX_ORDER else {#})"
    unfolding free_bytes_def by (intro sum.cong) (auto simp: buddy_init_def PAGE_TO_ADDR_def)
  also have "\<dots> = block_bytes 0 MAX_ORDER"
    by (simp add: MIN_ORDER_def MAX_ORDER_def)
  finally have "coverage buddy_init []"
    by (simp add: coverage_def arena_bytes_def block_bytes_def block_range_def)
  moreover have "free_wf buddy_init"
    by (auto simp: free_wf_def buddy_init_def PAGE_TO_ADDR_def)
  moreover have "live_ok buddy_init []" by (simp add: live_ok_def)
  ultimately show ?thesis by (simp add: invariant_def)
qed

section \<open>Buddy arithmetic\<close>

lemma xor_pow2_mult: "(m * 2 ^ n) XOR (2 ^ n) = (m XOR 1) * 2 ^ n" for m n :: nat
proof -
  have "push_bit n m XOR push_bit n 1 = push_bit n (m XOR 1)"
    by (simp add: push_bit_xor)
  then show ?thesis by (simp add: push_bit_eq_mult)
qed

lemma align_down_aligned: "shl1 k dvd a \<Longrightarrow> align_down a k = a"
  by (simp add: align_down_def)

lemma align_down_dvd: "shl1 k dvd align_down a k"
proof -
  have "align_down a k = shl1 k * (a div shl1 k)"
    unfolding align_down_def by (simp add: minus_mod_eq_mult_div)
  then show ?thesis by simp
qed

lemma align_down_le: "align_down a k \<le> a"
  by (simp add: align_down_def)

lemma align_down_twice:
  assumes "j \<le> k"
  shows "align_down (align_down a j) k = align_down a k"
proof -
  obtain c where c: "shl1 k = shl1 j * c" using shl1_dvd[OF assms] by (auto simp: dvd_def)
  have a: "align_down a j = shl1 j * (a div shl1 j)"
    unfolding align_down_def by (simp add: minus_mod_eq_mult_div)
  have "align_down (align_down a j) k = shl1 k * (align_down a j div shl1 k)"
    unfolding align_down_def[of "align_down a j"] by (simp add: minus_mod_eq_mult_div)
  also have "align_down a j div shl1 k = (a div shl1 j) div c"
    unfolding a c using shl1_pos[of j] by simp
  also have "\<dots> = a div shl1 k"
    unfolding c by (simp add: div_mult2_eq)
  also have "shl1 k * (a div shl1 k) = align_down a k"
    unfolding align_down_def by (simp add: minus_mod_eq_mult_div)
  finally show ?thesis .
qed

lemma buddy_cases:
  assumes "shl1 k dvd a" "0 \<le> k"
  obtains (left) "BUDDY_ADDR a k = a + shl1 k" "align_down a (k + 1) = a"
  | (right) "BUDDY_ADDR a k + shl1 k = a" "align_down a (k + 1) = BUDDY_ADDR a k"
proof -
  define n where "n = nat k"
  have s: "shl1 k = 2 ^ n" "shl1 (k + 1) = 2 * 2 ^ n"
    using assms(2) by (simp_all add: shl1_def n_def nat_add_distrib)
  from assms(1) obtain m where m: "a = m * 2 ^ n" unfolding s by (auto simp: dvd_def)
  have b: "BUDDY_ADDR a k = (m XOR 1) * 2 ^ n"
    unfolding BUDDY_ADDR_def s m by (rule xor_pow2_mult)
  show ?thesis
  proof (cases "even m")
    case True
    then obtain q where q: "m = 2 * q" by (auto elim: evenE)
    have "m XOR 1 = m + 1" using True by (simp add: xor_Suc_0_eq)
    then have 1: "BUDDY_ADDR a k = a + shl1 k" using b by (simp add: s m algebra_simps)
    have "a = q * (2 * 2 ^ n)" unfolding m q by simp
    then have "a mod shl1 (k + 1) = 0" unfolding s by simp
    then have 2: "align_down a (k + 1) = a" by (simp add: align_down_def)
    from 1 2 show ?thesis by (rule left)
  next
    case False
    then obtain q where q: "m = 2 * q + 1" by (auto elim: oddE)
    have "m XOR 1 = m - 1" using False by (simp add: xor_Suc_0_eq)
    then have bq: "BUDDY_ADDR a k = q * (2 * 2 ^ n)" using b by (simp add: q)
    have aq: "a = q * (2 * 2 ^ n) + 2 ^ n" unfolding m q by (simp add: algebra_simps)
    have 1: "BUDDY_ADDR a k + shl1 k = a" using bq by (simp add: aq s)
    have "a mod shl1 (k + 1) = 2 ^ n" unfolding s aq by simp
    then have 2: "align_down a (k + 1) = BUDDY_ADDR a k"
      using bq by (simp add: align_down_def aq)
    from 1 2 show ?thesis by (rule right)
  qed
qed

lemma buddy_block_bytes:
  assumes "shl1 k dvd a" "0 \<le> k"
  shows "block_bytes (align_down a (k + 1)) (k + 1) = block_bytes a k + block_bytes (BUDDY_ADDR a k) k"
  using assms
proof (cases rule: buddy_cases)
  case left
  then show ?thesis using block_bytes_split[OF assms(2), of a] by simp
next
  case right
  then show ?thesis using block_bytes_split[OF assms(2), of "BUDDY_ADDR a k"] by (simp add: ac_simps)
qed

section \<open>Freeing: one execution of the loop body\<close>

lemma find_buddy_Some:
  "find_buddy s a ord = Some cur \<Longrightarrow>
     cur \<in> set (free_area s ord) \<and> BUDDY_ADDR a ord = PAGE_TO_ADDR cur"
  unfolding find_buddy_def by (auto simp: find_Some_iff)

lemma find_buddy_None:
  "find_buddy s a ord = None \<Longrightarrow> PAGE_SIZE dvd BUDDY_ADDR a ord \<Longrightarrow>
     ADDR_TO_PAGE (BUDDY_ADDR a ord) \<notin> set (free_area s ord)"
  unfolding find_buddy_def by (auto simp: find_None_iff PAGE_TO_ADDR_inverse)

lemma buddy_page_aligned: "shl1 k dvd a \<Longrightarrow> buddy_page a k = ADDR_TO_PAGE (BUDDY_ADDR a k)"
  by (simp add: buddy_page_def align_down_aligned)

lemma free_pre_page_aligned:
  assumes "free_pre s a ord"
  shows "PAGE_SIZE dvd a" "PAGE_SIZE dvd BUDDY_ADDR a ord"
proof -
  have o: "MIN_ORDER \<le> ord" "shl1 ord dvd a" using assms by (simp_all add: free_pre_def)
  have ps: "PAGE_SIZE dvd shl1 ord" using o(1) by (rule PAGE_SIZE_dvd_shl1)
  then show a: "PAGE_SIZE dvd a" using o(2) by (rule dvd_trans)
  have "0 \<le> ord" using o(1) by (simp add: MIN_ORDER_def)
  with o(2) show "PAGE_SIZE dvd BUDDY_ADDR a ord"
  proof (cases rule: buddy_cases)
    case left
    then show ?thesis using a ps by simp
  next
    case right
    have "PAGE_SIZE dvd (BUDDY_ADDR a ord + shl1 ord)" using a right(1) by simp
    then show ?thesis using ps by (simp add: dvd_add_left_iff)
  qed
qed

lemma free_wf_remove1:
  "free_wf s \<Longrightarrow> free_wf (s\<lparr>free_area := (free_area s)(k := remove1 p (free_area s k))\<rparr>)"
  unfolding free_wf_def
proof (intro allI impI, elim conjE)
  fix j q
  assume wf: "\<forall>k p. MIN_ORDER \<le> k \<and> k \<le> MAX_ORDER \<and> p \<in> set (free_area s k) \<longrightarrow>
      shl1 k dvd PAGE_TO_ADDR p \<and> PAGE_TO_ADDR p + shl1 k \<le> shl1 MAX_ORDER"
    and j: "MIN_ORDER \<le> j" "j \<le> MAX_ORDER"
    and q: "q \<in> set (free_area (s\<lparr>free_area := (free_area s)(k := remove1 p (free_area s k))\<rparr>) j)"
  have "q \<in> set (free_area s j)"
    using q set_remove1_subset[of p "free_area s k"] by (cases "j = k") auto
  then show "shl1 j dvd PAGE_TO_ADDR q \<and> PAGE_TO_ADDR q + shl1 j \<le> shl1 MAX_ORDER"
    using wf j by blast
qed

lemma free_body_cases:
  assumes "free_pre s a ord"
  obtains
    (stop) "buddy_page a ord \<notin> set (free_area s ord)"
      "free_body s a (ADDR_TO_PAGE a) ord =
         Inr (s\<lparr>page_order := (page_order s)(ADDR_TO_PAGE a := UNSET),
               free_area := (free_area s)(ord := ADDR_TO_PAGE a # free_area s ord)\<rparr>)"
  | (merge) "ord < MAX_ORDER" "buddy_page a ord \<in> set (free_area s ord)"
      "PAGE_TO_ADDR (buddy_page a ord) = BUDDY_ADDR a ord"
      "free_body s a (ADDR_TO_PAGE a) ord =
         Inl (s\<lparr>free_area := (free_area s)(ord := remove1 (buddy_page a ord) (free_area s ord))\<rparr>,
              align_down a (ord + 1), ADDR_TO_PAGE (align_down a (ord + 1)), ord + 1)"
      "free_pre (s\<lparr>free_area := (free_area s)(ord := remove1 (buddy_page a ord) (free_area s ord))\<rparr>)
         (align_down a (ord + 1)) (ord + 1)"
proof -
  have pre: "free_wf s" "MIN_ORDER \<le> ord" "ord \<le> MAX_ORDER" "shl1 ord dvd a"
    "a + shl1 ord \<le> shl1 MAX_ORDER"
    using assms by (simp_all add: free_pre_def)
  have o0: "0 \<le> ord" using pre(2) by (simp add: MIN_ORDER_def)
  note pa = free_pre_page_aligned[OF assms]
  have bp: "buddy_page a ord = ADDR_TO_PAGE (BUDDY_ADDR a ord)"
    using pre(4) by (rule buddy_page_aligned)
  show ?thesis
  proof (cases "find_buddy s a ord")
    case None
    have "buddy_page a ord \<notin> set (free_area s ord)"
      unfolding bp using None pa(2) by (rule find_buddy_None)
    moreover have "free_body s a (ADDR_TO_PAGE a) ord =
         Inr (s\<lparr>page_order := (page_order s)(ADDR_TO_PAGE a := UNSET),
               free_area := (free_area s)(ord := ADDR_TO_PAGE a # free_area s ord)\<rparr>)"
      using None by (simp add: free_body_def)
    ultimately show ?thesis by (rule stop)
  next
    case (Some cur)
    from find_buddy_Some[OF Some] have cur: "cur \<in> set (free_area s ord)"
      "BUDDY_ADDR a ord = PAGE_TO_ADDR cur" by simp_all
    then have cb: "cur = buddy_page a ord" unfolding bp by simp
    have wfc: "shl1 ord dvd BUDDY_ADDR a ord" "BUDDY_ADDR a ord + shl1 ord \<le> shl1 MAX_ORDER"
      using pre(1,2,3) cur unfolding free_wf_def by auto
    have lt: "ord < MAX_ORDER"
    proof (rule ccontr)
      assume "\<not> ord < MAX_ORDER"
      then have e: "ord = MAX_ORDER" using pre(3) by simp
      from pre(4) o0 show False
        by (cases rule: buddy_cases) (use wfc(2) pre(5) shl1_pos[of MAX_ORDER] e in auto)
    qed
    let ?s1 = "s\<lparr>free_area := (free_area s)(ord := remove1 (buddy_page a ord) (free_area s ord))\<rparr>"
    let ?a' = "align_down a (ord + 1)"
    have body: "free_body s a (ADDR_TO_PAGE a) ord = Inl (?s1, ?a', ADDR_TO_PAGE ?a', ord + 1)"
      using pre(4) o0
    proof (cases rule: buddy_cases)
      case left
      then have "\<not> a > PAGE_TO_ADDR cur" using cur(2) by simp
      then show ?thesis using Some cur(2) lt left cb by (simp add: free_body_def Let_def)
    next
      case right
      then have "a > PAGE_TO_ADDR cur" using cur(2) shl1_pos[of ord] by linarith
      moreover have "?a' = PAGE_TO_ADDR cur" using right cur(2) by simp
      ultimately show ?thesis using Some cur(2) lt cb by (simp add: free_body_def Let_def)
    qed
    have rng: "?a' + shl1 (ord + 1) \<le> shl1 MAX_ORDER"
      using pre(4) o0
      by (cases rule: buddy_cases) (use wfc(2) pre(5) o0 in \<open>auto simp: shl1_step\<close>)
    have pre': "free_pre ?s1 ?a' (ord + 1)"
      unfolding free_pre_def
      using free_wf_remove1[OF pre(1)] pre(2) lt align_down_dvd[of "ord + 1" a] rng by simp
    show ?thesis
      using lt cur(1)[unfolded cb] _ body pre'
      by (rule merge) (simp add: cb[symmetric] cur(2))
  qed
qed

section \<open>Freeing: the loop in closed form\<close>

lemma final_order_cong:
  assumes "\<forall>j. k \<le> j \<longrightarrow> free_area t j = free_area s j \<and> buddy_page B j = buddy_page A j"
  shows "final_order t B k = final_order s A k"
  using assms
proof (induction "nat (MAX_ORDER - k)" arbitrary: k)
  case 0
  then have "\<not> k < MAX_ORDER" by simp
  then show ?case by (subst final_order.simps, subst (2) final_order.simps) simp
next
  case (Suc n)
  have ih: "final_order t B (k + 1) = final_order s A (k + 1)"
    using Suc.hyps(2) Suc.prems by (intro Suc.hyps(1)) auto
  have "free_area t k = free_area s k" "buddy_page B k = buddy_page A k"
    using Suc.prems by simp_all
  then show ?case using ih by (subst final_order.simps, subst (2) final_order.simps) simp
qed

lemma final_order_props:
  assumes "k \<le> MAX_ORDER"
  shows "k \<le> final_order s A k \<and> final_order s A k \<le> MAX_ORDER \<and>
     (\<forall>j. k \<le> j \<and> j < final_order s A k \<longrightarrow> buddy_page A j \<in> set (free_area s j)) \<and>
     (final_order s A k = MAX_ORDER \<or> buddy_page A (final_order s A k) \<notin> set (free_area s (final_order s A k)))"
  using assms
proof (induction "nat (MAX_ORDER - k)" arbitrary: k)
  case 0
  then have k: "k = MAX_ORDER" by simp
  then have e: "final_order s A k = k" by (subst final_order.simps) simp
  show ?case unfolding e using k by auto
next
  case (Suc n)
  then have lt: "k < MAX_ORDER" by linarith
  show ?case
  proof (cases "buddy_page A k \<in> set (free_area s k)")
    case True
    then have e: "final_order s A k = final_order s A (k + 1)"
      using lt by (subst final_order.simps) simp
    have ih: "k + 1 \<le> final_order s A (k + 1) \<and> final_order s A (k + 1) \<le> MAX_ORDER \<and>
     (\<forall>j. k + 1 \<le> j \<and> j < final_order s A (k + 1) \<longrightarrow> buddy_page A j \<in> set (free_area s j)) \<and>
     (final_order s A (k + 1) = MAX_ORDER \<or>
      buddy_page A (final_order s A (k + 1)) \<notin> set (free_area s (final_order s A (k + 1))))"
      using Suc.hyps(2) lt by (intro Suc.hyps(1)) auto
    moreover have "\<And>j. k \<le> j \<Longrightarrow> j = k \<or> k + 1 \<le> j" by linarith
    ultimately show ?thesis unfolding e using True by auto
  next
    case False
    then have e: "final_order s A k = k" by (subst final_order.simps) simp
    show ?thesis unfolding e using False lt by auto
  qed
qed

lemma coalesced_state_stop:
  assumes "shl1 ord dvd a"
  shows "coalesced_state s a ord ord =
     s\<lparr>page_order := (page_order s)(ADDR_TO_PAGE a := UNSET),
       free_area := (free_area s)(ord := ADDR_TO_PAGE a # free_area s ord)\<rparr>"
  using assms by (auto simp: coalesced_state_def align_down_aligned fun_eq_iff)

lemma coalesced_state_merge:
  assumes "shl1 ord dvd a" "ord < K"
  shows "coalesced_state (s\<lparr>free_area := (free_area s)(ord := remove1 (buddy_page a ord) (free_area s ord))\<rparr>)
           (align_down a (ord + 1)) (ord + 1) K
         = coalesced_state s a ord K"
    (is "coalesced_state ?s1 ?a' _ _ = _")
proof -
  have ad: "align_down ?a' K = align_down a K"
    using assms(2) by (intro align_down_twice) simp
  have bp: "\<And>j. ord + 1 \<le> j \<Longrightarrow> buddy_page ?a' j = buddy_page a j"
    by (simp add: buddy_page_def align_down_twice)
  have fa: "free_area (coalesced_state ?s1 ?a' (ord + 1) K) j = free_area (coalesced_state s a ord K) j" for j
  proof -
    consider "j = K" | "j \<noteq> K" "j = ord" | "j \<noteq> K" "ord + 1 \<le> j" | "j \<noteq> K" "j < ord"
      by linarith
    then show ?thesis
      by cases (use assms(2) ad bp in \<open>simp_all add: coalesced_state_def\<close>)
  qed
  have po: "page_order (coalesced_state ?s1 ?a' (ord + 1) K) = page_order (coalesced_state s a ord K)"
    by (simp add: coalesced_state_def ad)
  have mo: "state.more (coalesced_state ?s1 ?a' (ord + 1) K) = state.more (coalesced_state s a ord K)"
    by (simp add: coalesced_state_def)
  show ?thesis
  proof (rule state.equality)
    show "free_area (coalesced_state ?s1 ?a' (ord + 1) K) = free_area (coalesced_state s a ord K)"
      using fa by (rule ext)
  qed (rule po, rule mo)
qed

lemma free_loop_closed:
  assumes "free_pre s a ord"
  shows "buddy_free_loop s a (ADDR_TO_PAGE a) ord = coalesced_state s a ord (final_order s a ord)"
  using assms
proof (induction "nat (MAX_ORDER - ord)" arbitrary: s a ord)
  case 0
  then have e: "ord = MAX_ORDER" by (simp add: free_pre_def)
  have d: "shl1 ord dvd a" using "0.prems" by (simp add: free_pre_def)
  from "0.prems" show ?case
  proof (cases rule: free_body_cases)
    case stop
    have "final_order s a ord = ord" using e by (subst final_order.simps) simp
    then show ?thesis using stop(2) by (subst buddy_free_loop.simps) (simp add: coalesced_state_stop[OF d])
  next
    case merge
    then show ?thesis using e by simp
  qed
next
  case (Suc n)
  have d: "shl1 ord dvd a" using Suc.prems by (simp add: free_pre_def)
  from Suc.prems show ?case
  proof (cases rule: free_body_cases)
    case stop
    have "final_order s a ord = ord" using stop(1) by (subst final_order.simps) simp
    then show ?thesis using stop(2) by (subst buddy_free_loop.simps) (simp add: coalesced_state_stop[OF d])
  next
    case merge
    let ?s1 = "s\<lparr>free_area := (free_area s)(ord := remove1 (buddy_page a ord) (free_area s ord))\<rparr>"
    let ?a' = "align_down a (ord + 1)"
    have fo: "final_order s a ord = final_order s a (ord + 1)"
      using merge(1,2) by (subst final_order.simps) simp
    have "final_order ?s1 ?a' (ord + 1) = final_order s a (ord + 1)"
      by (rule final_order_cong) (simp add: buddy_page_def align_down_twice)
    then have fo1: "final_order ?s1 ?a' (ord + 1) = final_order s a ord" using fo by simp
    have K: "ord < final_order s a ord"
      unfolding fo using final_order_props[of "ord + 1" s a] merge(1) by simp
    have "buddy_free_loop s a (ADDR_TO_PAGE a) ord = buddy_free_loop ?s1 ?a' (ADDR_TO_PAGE ?a') (ord + 1)"
      using merge(4) by (subst buddy_free_loop.simps) simp
    also have "\<dots> = coalesced_state ?s1 ?a' (ord + 1) (final_order ?s1 ?a' (ord + 1))"
      using Suc.hyps(2) merge(5) by (intro Suc.hyps(1)) auto
    also have "\<dots> = coalesced_state s a ord (final_order s a ord)"
      unfolding fo1 using d K by (rule coalesced_state_merge)
    finally show ?thesis .
  qed
qed

lemma free_loop_bytes:
  assumes "free_pre s a ord"
  shows "free_bytes (buddy_free_loop s a (ADDR_TO_PAGE a) ord) = free_bytes s + block_bytes a ord \<and>
         free_wf (buddy_free_loop s a (ADDR_TO_PAGE a) ord)"
  using assms
proof (induction "nat (MAX_ORDER - ord)" arbitrary: s a ord rule: less_induct)
  case less
  have pre: "free_wf s" "MIN_ORDER \<le> ord" "ord \<le> MAX_ORDER" "shl1 ord dvd a"
    "a + shl1 ord \<le> shl1 MAX_ORDER"
    using less.prems by (simp_all add: free_pre_def)
  note pa = free_pre_page_aligned[OF less.prems]
  from less.prems show ?case
  proof (cases rule: free_body_cases)
    case stop
    let ?t = "s\<lparr>page_order := (page_order s)(ADDR_TO_PAGE a := UNSET),
               free_area := (free_area s)(ord := ADDR_TO_PAGE a # free_area s ord)\<rparr>"
    have l: "buddy_free_loop s a (ADDR_TO_PAGE a) ord = ?t"
      using stop(2) by (subst buddy_free_loop.simps) simp
    have "free_bytes ?t + list_bytes ord (free_area s ord) =
          free_bytes s + list_bytes ord (ADDR_TO_PAGE a # free_area s ord)"
      using free_bytes_update[OF pre(2,3), of "s\<lparr>page_order := (page_order s)(ADDR_TO_PAGE a := UNSET)\<rparr>"
          "ADDR_TO_PAGE a # free_area s ord"] by simp
    then have b: "free_bytes ?t = free_bytes s + block_bytes a ord"
      by (simp add: PAGE_TO_ADDR_inverse[OF pa(1)])
    have "free_wf ?t"
      using pre unfolding free_wf_def by (auto simp: PAGE_TO_ADDR_inverse[OF pa(1)])
    then show ?thesis using b l by simp
  next
    case merge
    let ?s1 = "s\<lparr>free_area := (free_area s)(ord := remove1 (buddy_page a ord) (free_area s ord))\<rparr>"
    let ?a' = "align_down a (ord + 1)"
    have l: "buddy_free_loop s a (ADDR_TO_PAGE a) ord = buddy_free_loop ?s1 ?a' (ADDR_TO_PAGE ?a') (ord + 1)"
      using merge(4) by (subst buddy_free_loop.simps) simp
    have ih: "free_bytes (buddy_free_loop ?s1 ?a' (ADDR_TO_PAGE ?a') (ord + 1)) =
          free_bytes ?s1 + block_bytes ?a' (ord + 1) \<and>
          free_wf (buddy_free_loop ?s1 ?a' (ADDR_TO_PAGE ?a') (ord + 1))"
      using merge(1,5) by (intro less.hyps) auto
    have "free_bytes ?s1 + list_bytes ord (free_area s ord) =
          free_bytes s + list_bytes ord (remove1 (buddy_page a ord) (free_area s ord))"
      by (rule free_bytes_update[OF pre(2,3)])
    then have "free_bytes ?s1 + block_bytes (BUDDY_ADDR a ord) ord = free_bytes s"
      using list_bytes_remove1[OF merge(2), of ord] merge(3) by simp
    moreover have "block_bytes ?a' (ord + 1) = block_bytes a ord + block_bytes (BUDDY_ADDR a ord) ord"
      using pre(4) pre(2) by (intro buddy_block_bytes) (simp_all add: MIN_ORDER_def)
    ultimately have "free_bytes ?s1 + block_bytes ?a' (ord + 1) = free_bytes s + block_bytes a ord"
      by (metis add.assoc add.commute)
    then show ?thesis using ih l by simp
  qed
qed

section \<open>The invariant holds in every state of a run\<close>

lemma coverage_live_in_arena:
  assumes "coverage s L" "(B, r) \<in> set L"
  shows "B + shl1 r \<le> shl1 MAX_ORDER"
proof -
  let ?x = "B + shl1 r - 1"
  have x: "?x \<in> block_range B r" using shl1_pos[of r] by (simp add: block_range_def)
  have "1 \<le> count (live_bytes L) ?x"
    using count_live_bytes_ge[OF assms(2), of ?x] x by (simp add: count_block_bytes)
  moreover have "count (free_bytes s + live_bytes L) ?x = count arena_bytes ?x"
    using assms(1) by (simp only: coverage_def)
  ultimately have "1 \<le> count arena_bytes ?x" by (simp only: count_union)
  then have "?x < shl1 MAX_ORDER" by (simp add: arena_bytes_def count_mset_set' split: if_splits)
  then show ?thesis using shl1_pos[of r] by linarith
qed

lemma live_free_pre:
  assumes "invariant s L" "(A, r) \<in> set L"
  shows "free_pre s A r" "page_order s (ADDR_TO_PAGE A) = r" "ADDR_TO_PAGE A < N_PAGES"
proof -
  have inv: "coverage s L" "free_wf s" "live_ok s L"
    using assms(1) by (simp_all add: invariant_def)
  have l: "MIN_ORDER \<le> r" "r \<le> MAX_ORDER" "shl1 r dvd A" "page_order s (ADDR_TO_PAGE A) = r"
    using inv(3) assms(2) unfolding live_ok_def by auto
  have rng: "A + shl1 r \<le> shl1 MAX_ORDER" using inv(1) assms(2) by (rule coverage_live_in_arena)
  show "free_pre s A r" using inv(2) l rng by (simp add: free_pre_def)
  show "page_order s (ADDR_TO_PAGE A) = r" by (rule l(4))
  have "PAGE_TO_ADDR (ADDR_TO_PAGE A) = A" using l(1,3) by (rule live_page_aligned)
  moreover have "A < shl1 MAX_ORDER" using rng shl1_pos[of r] by linarith
  ultimately show "ADDR_TO_PAGE A < N_PAGES" by (intro PAGE_TO_ADDR_less) simp
qed

lemma buddy_free_live:
  assumes "invariant s L" "(A, r) \<in> set L"
  shows "buddy_free s A = Some (coalesced_state s A r (final_order s A r))"
proof -
  note p = live_free_pre[OF assms]
  have "MIN_ORDER \<le> r" "r \<le> MAX_ORDER" using p(1) by (simp_all add: free_pre_def)
  then show ?thesis
    using p(2,3) free_loop_closed[OF p(1)] by (simp add: buddy_free_def)
qed

lemma free_invariant:
  assumes "invariant s L" "(A, r) \<in> set L" "buddy_free s A = Some s'"
  shows "invariant s' (remove1 (A, r) L)"
proof -
  let ?L = "remove1 (A, r) L"
  let ?K = "final_order s A r"
  let ?q = "ADDR_TO_PAGE (align_down A ?K)"
  have inv: "coverage s L" "free_wf s" "live_ok s L"
    using assms(1) by (simp_all add: invariant_def)
  note p = live_free_pre[OF assms(1,2)]
  have r: "MIN_ORDER \<le> r" "r \<le> MAX_ORDER" using p(1) by (simp_all add: free_pre_def)
  have s': "s' = buddy_free_loop s A (ADDR_TO_PAGE A) r"
    using assms(3) p(2,3) r by (simp add: buddy_free_def)
  have cs: "s' = coalesced_state s A r ?K"
    using assms(3) buddy_free_live[OF assms(1,2)] by simp
  from free_loop_bytes[OF p(1)] have fb: "free_bytes s' = free_bytes s + block_bytes A r"
    and wf: "free_wf s'" unfolding s' by simp_all
  have "free_bytes s' + live_bytes ?L = free_bytes s + (block_bytes A r + live_bytes ?L)"
    unfolding fb by (simp add: ac_simps)
  also have "\<dots> = free_bytes s + live_bytes L"
    using live_bytes_remove1[OF assms(2)] by simp
  also have "\<dots> = arena_bytes" using inv(1) by (simp only: coverage_def)
  finally have cov: "coverage s' ?L" by (simp only: coverage_def)
  have K: "r \<le> ?K" "?K \<le> MAX_ORDER" using final_order_props[OF r(2), of s A] by simp_all
  have q: "?q \<in> set (free_area s' ?K)" by (simp add: cs coalesced_state_def)
  have po: "page_order s' = (page_order s)(?q := UNSET)" by (simp add: cs coalesced_state_def)
  have "live_ok s' ?L"
    unfolding live_ok_def
  proof (intro ballI, clarify)
    fix B k assume "(B, k) \<in> set ?L"
    then have mem: "(B, k) \<in> set ?L" "(B, k) \<in> set L"
      using set_remove1_subset[of "(A, r)" L] by auto
    then have lk: "MIN_ORDER \<le> k" "k \<le> MAX_ORDER" "shl1 k dvd B" "page_order s (ADDR_TO_PAGE B) = k"
      using inv(3) unfolding live_ok_def by auto
    have "ADDR_TO_PAGE B \<noteq> ?q"
    proof
      assume "ADDR_TO_PAGE B = ?q"
      then have "B = PAGE_TO_ADDR ?q" using live_page_aligned[OF lk(1,3)] by simp
      then have "B \<in> block_range (PAGE_TO_ADDR ?q) ?K \<inter> block_range B k"
        using block_range_self by simp
      moreover have "block_range (PAGE_TO_ADDR ?q) ?K \<inter> block_range B k = {}"
        using cov _ K(2) q mem(1) by (rule coverage_free_live_disjoint) (use K(1) r(1) in simp)
      ultimately show False by simp
    qed
    then show "MIN_ORDER \<le> k \<and> k \<le> MAX_ORDER \<and> shl1 k dvd B \<and> page_order s' (ADDR_TO_PAGE B) = k"
      using lk po by simp
  qed
  then show ?thesis using cov wf by (simp add: invariant_def)
qed

lemma step_invariant:
  assumes "invariant s L" "step (s, L) x = Some (t, M)"
  shows "invariant t M"
proof (cases x)
  case (Alloc sz)
  obtain res s' where b: "buddy_alloc s sz = (res, s')" by (cases "buddy_alloc s sz")
  show ?thesis
  proof (cases res)
    case (Inl e)
    have "free_wf s" using assms(1) by (simp add: invariant_def)
    from buddy_alloc_failure[OF this b[unfolded Inl]] show ?thesis
      using assms Alloc b Inl by simp
  next
    case (Inr A)
    from alloc_invariant[OF assms(1) b[unfolded Inr]] show ?thesis
      using assms(2) Alloc b Inr by simp
  qed
next
  case (Free A)
  from assms(2) Free obtain r s' where r: "map_of L A = Some r" and f: "buddy_free s A = Some s'"
    and tm: "t = s'" "M = remove1 (A, r) L"
    by (auto split: option.splits)
  have "(A, r) \<in> set L" using r by (rule map_of_SomeD)
  from free_invariant[OF assms(1) this f] show ?thesis using tm by simp
qed

lemma run_from_invariant:
  "invariant s L \<Longrightarrow> run_from (s, L) ops = Some (t, M) \<Longrightarrow> invariant t M"
proof (induction ops arbitrary: s L)
  case Nil
  then show ?case by simp
next
  case (Cons x xs)
  from Cons.prems(2) obtain s1 L1 where st: "step (s, L) x = Some (s1, L1)"
    and rest: "run_from (s1, L1) xs = Some (t, M)"
    by (auto split: option.splits)
  from step_invariant[OF Cons.prems(1) st] rest show ?case by (rule Cons.IH)
qed

lemma run_invariant: "run ops = Some (s, L) \<Longrightarrow> invariant s L"
  unfolding run_def using init_invariant by (rule run_from_invariant)

section \<open>Evaluating runs\<close>

lemmas consts_eval = MIN_ORDER_def MAX_ORDER_def UNSET_def shl1_def PAGE_SIZE_eq N_PAGES_eq
  PAGE_TO_ADDR_def ADDR_TO_PAGE_def BUDDY_ADDR_def

lemmas alloc_eval = buddy_alloc.simps buddy_alloc_loop.simps buddy_split.simps REQ_ORDER_def
  clog2.simps buddy_init_def Let_def

lemmas free_eval = buddy_free_def buddy_free_loop.simps free_body_def find_buddy_def

section \<open>Further facts about allocation, freeing and runs\<close>

lemma free_lists_eval:
  "free_lists s = [free_area s 12, free_area s 13, free_area s 14, free_area s 15, free_area s 16,
     free_area s 17, free_area s 18, free_area s 19, free_area s 20]"
  by (simp add: free_lists_def MIN_ORDER_def MAX_ORDER_def upto_rec_numeral)

lemmas dump_eval = buddy_dump_def buddy_dump_loop.simps dec.simps

lemma xor_pow2_above: "a < 2 ^ n \<Longrightarrow> a XOR 2 ^ n = a + 2 ^ n" for a n :: nat
proof -
  assume a: "a < 2 ^ n"
  have "\<not> bit a n" using a by (simp add: bit_iff_odd)
  then have "a AND 2 ^ n = 0"
    by (intro bit_eqI) (auto simp: bit_and_iff bit_exp_iff)
  then show ?thesis by (simp add: disjunctive_add_eq_xor)
qed

lemma BUDDY_ADDR_above: "A < shl1 k \<Longrightarrow> BUDDY_ADDR A k = A + shl1 k"
  unfolding BUDDY_ADDR_def shl1_def by (rule xor_pow2_above)

lemma PAGE_TO_ADDR_in_arena: "p < N_PAGES \<Longrightarrow> PAGE_TO_ADDR p < shl1 MAX_ORDER"
  by (simp add: PAGE_TO_ADDR_def N_PAGES_eq PAGE_SIZE_eq shl1_def MAX_ORDER_def)

lemma free_orders_bounds:
  "ord \<le> MAX_ORDER \<Longrightarrow>
     (\<forall>k \<in> set (free_orders s a i ord). ord \<le> k \<and> k \<le> MAX_ORDER) \<and>
     length (free_orders s a i ord) \<le> nat (MAX_ORDER - ord + 1)"
proof (induction "nat (MAX_ORDER - ord)" arbitrary: s a i ord)
  case 0
  then have e: "ord = MAX_ORDER" by simp
  have "free_orders s a i ord = [ord]"
    using e free_body_continues[of s a i ord]
    by (subst free_orders.simps) (auto split: sum.splits)
  then show ?case using e by simp
next
  case (Suc n)
  show ?case
  proof (cases "free_body s a i ord")
    case (Inr s')
    then have "free_orders s a i ord = [ord]" by (subst free_orders.simps) simp
    then show ?thesis using Suc.prems by simp
  next
    case (Inl c)
    obtain s' a' i' ord' where c: "c = (s', a', i', ord')" by (cases c)
    from free_body_continues[OF Inl[unfolded c]] have o: "ord < MAX_ORDER" "ord' = ord + 1" by simp_all
    have f: "free_orders s a i ord = ord # free_orders s' a' i' (ord + 1)"
      using Inl c o by (subst free_orders.simps) simp
    have ih: "(\<forall>k \<in> set (free_orders s' a' i' (ord + 1)). ord + 1 \<le> k \<and> k \<le> MAX_ORDER) \<and>
       length (free_orders s' a' i' (ord + 1)) \<le> nat (MAX_ORDER - (ord + 1) + 1)"
      using Suc.hyps(2) o by (intro Suc.hyps(1)) auto
    show ?thesis unfolding f using ih o Suc.prems by auto
  qed
qed

lemma clog2_gt:
  assumes "2 ^ k < n"
  shows "int k < clog2 n"
proof (rule ccontr)
  assume "\<not> int k < clog2 n"
  then have c: "clog2 n \<le> int k" by simp
  have n1: "1 \<le> n" using assms by (smt (verit) one_le_power)
  have "n \<le> 2 ^ nat (clog2 n)" using clog2_bounds[OF n1] by simp
  moreover have "(2::int) ^ nat (clog2 n) \<le> 2 ^ k"
    using c by (intro power_increasing) simp_all
  ultimately show False using assms by simp
qed

lemma REQ_ORDER_above_MAX: "2 ^ 20 < sz \<Longrightarrow> MAX_ORDER < REQ_ORDER sz"
  using clog2_gt[of 20 sz] by (simp add: REQ_ORDER_def MAX_ORDER_def)

lemma REQ_ORDER_ceiling_log:
  "0 < sz \<Longrightarrow> REQ_ORDER sz = max MIN_ORDER \<lceil>log 2 (real_of_int sz)\<rceil>"
  by (simp add: REQ_ORDER_def clog2_ceiling_log max.commute)

text \<open>A successful allocation in any state, well-formed or not.\<close>

lemma buddy_alloc_Inr:
  assumes "buddy_alloc s sz = (Inr A, s')"
  obtains i p rest where "0 < sz" "first_nonempty s (REQ_ORDER sz) = Some i"
    "REQ_ORDER sz \<le> i" "i \<le> MAX_ORDER" "free_area s i = p # rest"
    "\<forall>j. REQ_ORDER sz \<le> j \<and> j < i \<longrightarrow> free_area s j = []"
    "A = PAGE_TO_ADDR p" "s' = split_state s i (REQ_ORDER sz) p rest"
proof -
  let ?r = "REQ_ORDER sz"
  have sz: "0 < sz"
    using assms by (subst (asm) buddy_alloc.simps) (auto split: if_splits)
  from assms buddy_alloc_first[OF sz, of s] obtain i where
    i: "first_nonempty s ?r = Some i" and sp: "buddy_split s i ?r = (Inr A, s')"
    by (auto split: option.splits)
  note f = first_nonempty_Some[OF i]
  then obtain p rest where pr: "free_area s i = p # rest" by (cases "free_area s i") auto
  have g: "\<forall>j. ?r \<le> j \<and> j < i \<longrightarrow> p + shl1 j div PAGE_SIZE < N_PAGES"
    using REQ_ORDER_ge[of sz] f pr sp by (intro split_guard[where A = A and rest = rest and s = s]) auto
  have "buddy_split s i ?r = (Inr (PAGE_TO_ADDR p), split_state s i ?r p rest)"
    using REQ_ORDER_ge[of sz] f pr g by (intro split_closed) auto
  then have "A = PAGE_TO_ADDR p" "s' = split_state s i ?r p rest" using sp by simp_all
  then show ?thesis using that[OF sz i _ _ pr] f by blast
qed

lemma right_half_page:
  "MIN_ORDER \<le> j \<Longrightarrow> ADDR_TO_PAGE (PAGE_TO_ADDR p + shl1 j) = p + shl1 j div PAGE_SIZE"
  using PAGE_TO_ADDR_right[of j p] ADDR_TO_PAGE_inverse[of "p + shl1 j div PAGE_SIZE"] by simp

lemma right_half_neq: "MIN_ORDER \<le> j \<Longrightarrow> p + shl1 j div PAGE_SIZE \<noteq> p"
proof -
  assume "MIN_ORDER \<le> j"
  then have "shl1 MIN_ORDER \<le> shl1 j" by (rule shl1_mono)
  then have "PAGE_SIZE \<le> shl1 j" by (simp add: PAGE_SIZE_def)
  then have "1 \<le> shl1 j div PAGE_SIZE"
    using PAGE_SIZE_pos by (simp add: Suc_le_eq div_greater_zero_iff)
  then show ?thesis by simp
qed

lemma spec_descend_closed:
  "free_area (spec_descend s A j r) =
     (\<lambda>k. if r \<le> k \<and> k \<le> j then ADDR_TO_PAGE (A + shl1 k) # free_area s k else free_area s k)
   \<and> (\<forall>q. (\<forall>k. r \<le> k \<and> k \<le> j \<longrightarrow> q \<noteq> ADDR_TO_PAGE (A + shl1 k)) \<longrightarrow>
          page_order (spec_descend s A j r) q = page_order s q)"
proof (induction s A j r rule: spec_descend.induct)
  case (1 s A j r)
  show ?case
  proof (cases "j < r")
    case True
    then have "spec_descend s A j r = s" by (subst spec_descend.simps) simp
    then show ?thesis using True by (auto simp: fun_eq_iff)
  next
    case False
    let ?s1 = "s\<lparr>free_area := (free_area s)(j := ADDR_TO_PAGE (A + shl1 j) # free_area s j),
                page_order := (page_order s)(ADDR_TO_PAGE (A + shl1 j) := j)\<rparr>"
    have e: "spec_descend s A j r = spec_descend ?s1 A (j - 1) r"
      using False by (subst spec_descend.simps) simp
    note ih = "1.IH"[OF False]
    have fa: "free_area (spec_descend s A j r) k =
       (if r \<le> k \<and> k \<le> j then ADDR_TO_PAGE (A + shl1 k) # free_area s k else free_area s k)" for k
    proof -
      have "k \<le> j - 1 \<or> k = j \<or> j < k" by linarith
      then show ?thesis unfolding e using ih[THEN conjunct1] False by auto
    qed
    have po: "page_order (spec_descend s A j r) q = page_order s q"
      if "\<forall>k. r \<le> k \<and> k \<le> j \<longrightarrow> q \<noteq> ADDR_TO_PAGE (A + shl1 k)" for q
    proof -
      have "\<forall>k. r \<le> k \<and> k \<le> j - 1 \<longrightarrow> q \<noteq> ADDR_TO_PAGE (A + shl1 k)" using that by auto
      then have "page_order (spec_descend ?s1 A (j - 1) r) q = page_order ?s1 q"
        using ih[THEN conjunct2] by blast
      moreover have "q \<noteq> ADDR_TO_PAGE (A + shl1 j)" using that False by auto
      ultimately show ?thesis unfolding e by simp
    qed
    show ?thesis using fa po by (auto simp: fun_eq_iff)
  qed
qed

lemma step_keeps_live:
  assumes "step (s, L) x = Some (t, M)" "x \<noteq> Free A" "(A, r) \<in> set L"
  shows "(A, r) \<in> set M"
proof (cases x)
  case (Alloc sz)
  then show ?thesis using assms by (auto split: prod.splits sum.splits)
next
  case (Free B)
  then have "B \<noteq> A" using assms(2) by simp
  then show ?thesis using assms(1,3) Free by (auto split: option.splits)
qed

lemma run_from_keeps_live:
  "run_from (s, L) xs = Some (t, M) \<Longrightarrow> Free A \<notin> set xs \<Longrightarrow> (A, r) \<in> set L \<Longrightarrow> (A, r) \<in> set M"
proof (induction xs arbitrary: s L)
  case Nil
  then show ?case by simp
next
  case (Cons x xs)
  from Cons.prems(1) obtain s1 L1 where st: "step (s, L) x = Some (s1, L1)"
    and rest: "run_from (s1, L1) xs = Some (t, M)"
    by (auto split: option.splits)
  have "(A, r) \<in> set L1" using st _ Cons.prems(3) by (rule step_keeps_live) (use Cons.prems(2) in auto)
  with rest Cons.prems(2) show ?case by (intro Cons.IH[of s1 L1]) auto
qed

lemma coalesced_bytes:
  assumes "shl1 r dvd A" "0 \<le> r" "r \<le> K"
  shows "block_bytes (align_down A K) K =
     block_bytes A r + (\<Sum>j \<in> {r..<K}. block_bytes (BUDDY_ADDR (align_down A j) j) j)"
  using assms(3)
proof (induction "nat (K - r)" arbitrary: K)
  case 0
  then have "K = r" by simp
  then show ?case using assms(1) by (simp add: align_down_aligned)
next
  case (Suc n)
  define K' where "K' = K - 1"
  have K: "K = K' + 1" "r \<le> K'" "0 \<le> K'" using Suc.hyps(2) Suc.prems assms(2) by (simp_all add: K'_def)
  have ih: "block_bytes (align_down A K') K' =
     block_bytes A r + (\<Sum>j \<in> {r..<K'}. block_bytes (BUDDY_ADDR (align_down A j) j) j)"
    using Suc.hyps(2) K by (intro Suc.hyps(1)) auto
  have "align_down (align_down A K') (K' + 1) = align_down A (K' + 1)"
    by (rule align_down_twice) simp
  then have "block_bytes (align_down A (K' + 1)) (K' + 1) =
      block_bytes (align_down A K') K' + block_bytes (BUDDY_ADDR (align_down A K') K') K'"
    using buddy_block_bytes[OF align_down_dvd[of K' A] K(3)] by simp
  moreover have "{r..<K' + 1} = insert K' {r..<K'}" using K(2) by auto
  then have "(\<Sum>j \<in> {r..<K' + 1}. block_bytes (BUDDY_ADDR (align_down A j) j) j) =
      block_bytes (BUDDY_ADDR (align_down A K') K') K' +
      (\<Sum>j \<in> {r..<K'}. block_bytes (BUDDY_ADDR (align_down A j) j) j)"
    by simp
  ultimately show ?case unfolding K(1) using ih by (simp add: ac_simps)
qed

section \<open>The claims\<close>

text \<open>
  C1. In every state of a run, a successful \<open>buddy_alloc\<close> of size \<open>sz\<close> returns a block of
  the order \<open>r = max(MIN_ORDER, ceil(log2 sz))\<close>: its address \<open>A\<close> (an offset from the base)
  is a multiple of \<open>2^r\<close>, its bytes \<open>[A, A + 2^r)\<close> lie in the arena and are disjoint from
  the bytes of every live allocation and of every member of a free list, and the order
  field of its page record is \<open>r\<close> on return and stays \<open>r\<close> through every continuation of
  the run that does not call \<open>buddy_free\<close> on \<open>A\<close>.
\<close>

theorem allocated_block:
  assumes "run ops = Some (s, L)" and "buddy_alloc s sz = (Inr A, s')"
  shows "REQ_ORDER sz = max MIN_ORDER \<lceil>log 2 (real_of_int sz)\<rceil>
    \<and> shl1 (REQ_ORDER sz) dvd A
    \<and> A + shl1 (REQ_ORDER sz) \<le> shl1 MAX_ORDER
    \<and> (\<forall>(B, k) \<in> set L. block_range A (REQ_ORDER sz) \<inter> block_range B k = {})
    \<and> (\<forall>k p. MIN_ORDER \<le> k \<and> k \<le> MAX_ORDER \<and> p \<in> set (free_area s' k) \<longrightarrow>
          block_range A (REQ_ORDER sz) \<inter> block_range (PAGE_TO_ADDR p) k = {})
    \<and> page_order s' (ADDR_TO_PAGE A) = REQ_ORDER sz
    \<and> (\<forall>ops' t M. Free A \<notin> set ops' \<and> run_from (s', (A, REQ_ORDER sz) # L) ops' = Some (t, M) \<longrightarrow>
          page_order t (ADDR_TO_PAGE A) = REQ_ORDER sz)"
proof -
  let ?r = "REQ_ORDER sz"
  let ?L = "(A, ?r) # L"
  have inv: "invariant s L" using assms(1) by (rule run_invariant)
  have inv': "invariant s' ?L" using inv assms(2) by (rule alloc_invariant)
  then have i: "coverage s' ?L" "free_wf s'" "live_ok s' ?L" by (simp_all add: invariant_def)
  have "0 < sz" using assms(2) by (subst (asm) buddy_alloc.simps) (auto split: if_splits)
  then have 1: "?r = max MIN_ORDER \<lceil>log 2 (real_of_int sz)\<rceil>" by (rule REQ_ORDER_ceiling_log)
  have 2: "shl1 ?r dvd A" and 6: "page_order s' (ADDR_TO_PAGE A) = ?r"
    using i(3) by (simp_all add: live_ok_def)
  have 3: "A + shl1 ?r \<le> shl1 MAX_ORDER"
    using i(1) by (rule coverage_live_in_arena) simp
  have 4: "\<forall>(B, k) \<in> set L. block_range A ?r \<inter> block_range B k = {}"
    using coverage_live_head_disjoint[OF i(1)] by auto
  have 5: "block_range A ?r \<inter> block_range (PAGE_TO_ADDR p) k = {}"
    if "MIN_ORDER \<le> k \<and> k \<le> MAX_ORDER \<and> p \<in> set (free_area s' k)" for k p
    using coverage_free_live_disjoint[OF i(1), of k p A ?r] that by auto
  have 7: "page_order t (ADDR_TO_PAGE A) = ?r"
    if "Free A \<notin> set ops' \<and> run_from (s', ?L) ops' = Some (t, M)" for ops' t M
  proof -
    have "invariant t M" using inv' that by (blast intro: run_from_invariant)
    moreover have "(A, ?r) \<in> set M"
      using that by (intro run_from_keeps_live[of s' ?L ops' t M A ?r]) simp_all
    ultimately show ?thesis by (auto simp: invariant_def live_ok_def)
  qed
  show ?thesis using 1 2 3 4 5 6 7 by blast
qed

theorem allocated_block_witness:
  "\<exists>s' t M. buddy_alloc (snd (buddy_alloc buddy_init 4096)) 65536 = (Inr 65536, s')
     \<and> REQ_ORDER 65536 = 16
     \<and> block_range 65536 16 \<inter> block_range 0 12 = {}
     \<and> page_order s' 16 = 16
     \<and> run_from (s', [(65536, 16), (0, 12)]) [Free 0, Alloc 4096] = Some (t, M)
     \<and> page_order t 16 = 16"
proof -
  let ?s = "snd (buddy_alloc buddy_init 4096)"
  let ?s' = "snd (buddy_alloc ?s 65536)"
  let ?L = "[(65536, 16), (0, 12)]"
  have r: "run [Alloc 4096] = Some (?s, [(0, 12)])"
    by (simp add: run_def consts_eval alloc_eval)
  have "fst (buddy_alloc ?s 65536) = Inr 65536"
    by (simp add: consts_eval alloc_eval)
  then have a: "buddy_alloc ?s 65536 = (Inr 65536, ?s')"
    by (intro prod_eqI) simp_all
  have q: "REQ_ORDER 65536 = 16" by (simp add: consts_eval alloc_eval)
  have "run_from (?s', ?L) [Free 0, Alloc 4096] \<noteq> None"
    by (simp add: consts_eval alloc_eval free_eval)
  then obtain t M where c: "run_from (?s', ?L) [Free 0, Alloc 4096] = Some (t, M)" by auto
  have f: "Free 65536 \<notin> set [Free 0, Alloc 4096]" by simp
  note st = allocated_block[OF r a, unfolded q]
  have "block_range 65536 16 \<inter> block_range 0 12 = {}"
    using st[THEN conjunct2, THEN conjunct2, THEN conjunct2, THEN conjunct1] by simp
  moreover have "page_order ?s' 16 = 16"
    using st[THEN conjunct2, THEN conjunct2, THEN conjunct2, THEN conjunct2, THEN conjunct2, THEN conjunct1]
    by (simp add: ADDR_TO_PAGE_def PAGE_SIZE_eq)
  moreover have "page_order t 16 = 16"
    using st[THEN conjunct2, THEN conjunct2, THEN conjunct2, THEN conjunct2, THEN conjunct2, THEN conjunct2,
        rule_format, of "[Free 0, Alloc 4096]" t M] f c
    by (simp add: ADDR_TO_PAGE_def PAGE_SIZE_eq)
  ultimately show ?thesis using a q c by blast
qed

text \<open>
  C2. In every state of a run, \<open>buddy_free\<close> of a live address \<open>A\<close> (returned by
  \<open>buddy_alloc\<close> with order \<open>r\<close> and not freed since) returns. There is a final order \<open>K\<close> with
  \<open>r \<le> K \<le> MAX_ORDER\<close> such that: at every order \<open>j\<close> from \<open>r\<close> below \<open>K\<close> the buddy of the
  current block was found in \<open>free_area[j]\<close> and has been unlinked from it; \<open>K\<close> is
  \<open>MAX_ORDER\<close> or the buddy at order \<open>K\<close> is not in \<open>free_area[K]\<close>; the coalesced block is
  linked at the head of \<open>free_area[K]\<close> at the address \<open>align_down A K\<close>, the minimum address
  of its range, and its order field is cleared; the other free lists are unchanged; and
  the bytes of the coalesced block are those of the block of \<open>A\<close> and of the merged buddies,
  each once.
\<close>

theorem free_coalesces:
  assumes "run ops = Some (s, L)" and "map_of L A = Some r"
  shows "\<exists>s' K. buddy_free s A = Some s' \<and> K = final_order s A r
    \<and> r \<le> K \<and> K \<le> MAX_ORDER
    \<and> (\<forall>j. r \<le> j \<and> j < K \<longrightarrow>
          buddy_page A j \<in> set (free_area s j)
        \<and> PAGE_TO_ADDR (buddy_page A j) = BUDDY_ADDR (align_down A j) j
        \<and> free_area s' j = remove1 (buddy_page A j) (free_area s j))
    \<and> (K = MAX_ORDER \<or> buddy_page A K \<notin> set (free_area s K))
    \<and> free_area s' K = ADDR_TO_PAGE (align_down A K) # free_area s K
    \<and> (\<forall>j. j < r \<or> K < j \<longrightarrow> free_area s' j = free_area s j)
    \<and> page_order s' = (page_order s)(ADDR_TO_PAGE (align_down A K) := UNSET)
    \<and> align_down A K \<le> A
    \<and> block_bytes (align_down A K) K =
        block_bytes A r + (\<Sum>j \<in> {r..<K}. block_bytes (BUDDY_ADDR (align_down A j) j) j)"
proof -
  let ?K = "final_order s A r"
  let ?s' = "coalesced_state s A r ?K"
  have inv: "invariant s L" using assms(1) by (rule run_invariant)
  have mem: "(A, r) \<in> set L" using assms(2) by (rule map_of_SomeD)
  have f: "buddy_free s A = Some ?s'" using inv mem by (rule buddy_free_live)
  note p = live_free_pre[OF inv mem]
  have r: "MIN_ORDER \<le> r" "r \<le> MAX_ORDER" "shl1 r dvd A"
    using p(1) by (simp_all add: free_pre_def)
  note fo = final_order_props[OF r(2), of s A]
  have K: "r \<le> ?K" "?K \<le> MAX_ORDER" using fo by simp_all
  have 1: "buddy_page A j \<in> set (free_area s j)
        \<and> PAGE_TO_ADDR (buddy_page A j) = BUDDY_ADDR (align_down A j) j
        \<and> free_area ?s' j = remove1 (buddy_page A j) (free_area s j)"
    if "r \<le> j \<and> j < ?K" for j
  proof -
    have j: "MIN_ORDER \<le> j" using that r(1) by simp
    have "PAGE_SIZE dvd shl1 j" using j by (rule PAGE_SIZE_dvd_shl1)
    then have pa: "PAGE_SIZE dvd align_down A j" using align_down_dvd[of j A] by (rule dvd_trans)
    have "0 \<le> j" using j by (simp add: MIN_ORDER_def)
    with align_down_dvd[of j A] have "PAGE_SIZE dvd BUDDY_ADDR (align_down A j) j"
    proof (cases rule: buddy_cases)
      case left
      then show ?thesis using pa \<open>PAGE_SIZE dvd shl1 j\<close> by simp
    next
      case right
      have "PAGE_SIZE dvd (BUDDY_ADDR (align_down A j) j + shl1 j)" using pa right(1) by simp
      then show ?thesis using \<open>PAGE_SIZE dvd shl1 j\<close> by (simp add: dvd_add_left_iff)
    qed
    then have "PAGE_TO_ADDR (buddy_page A j) = BUDDY_ADDR (align_down A j) j"
      unfolding buddy_page_def by (rule PAGE_TO_ADDR_inverse)
    moreover have "buddy_page A j \<in> set (free_area s j)" using fo that by blast
    moreover have "free_area ?s' j = remove1 (buddy_page A j) (free_area s j)"
      using that by (simp add: coalesced_state_def)
    ultimately show ?thesis by simp
  qed
  have 2: "?K = MAX_ORDER \<or> buddy_page A ?K \<notin> set (free_area s ?K)" using fo by blast
  have 3: "free_area ?s' ?K = ADDR_TO_PAGE (align_down A ?K) # free_area s ?K"
    by (simp add: coalesced_state_def)
  have 4: "free_area ?s' j = free_area s j" if "j < r \<or> ?K < j" for j
    using that K by (auto simp: coalesced_state_def)
  have 5: "page_order ?s' = (page_order s)(ADDR_TO_PAGE (align_down A ?K) := UNSET)"
    by (simp add: coalesced_state_def)
  have 6: "block_bytes (align_down A ?K) ?K =
        block_bytes A r + (\<Sum>j \<in> {r..<?K}. block_bytes (BUDDY_ADDR (align_down A j) j) j)"
    using r(3) _ K(1) by (rule coalesced_bytes) (use r(1) in \<open>simp add: MIN_ORDER_def\<close>)
  show ?thesis using f K 1 2 3 4 5 6 align_down_le[of A ?K] by blast
qed

theorem free_coalesces_witness:
  "\<exists>s'. buddy_free (snd (buddy_alloc buddy_init 4096)) 0 = Some s'
     \<and> final_order (snd (buddy_alloc buddy_init 4096)) 0 12 = 20
     \<and> buddy_page 0 15 = 8
     \<and> free_area (snd (buddy_alloc buddy_init 4096)) 15 = [8]
     \<and> free_area s' 15 = []
     \<and> free_area s' 20 = [0]
     \<and> page_order s' 0 = UNSET"
proof -
  let ?s = "snd (buddy_alloc buddy_init 4096)"
  have r: "run [Alloc 4096] = Some (?s, [(0, 12)])"
    by (simp add: run_def consts_eval alloc_eval)
  have m: "map_of [(0::nat, 12::int)] 0 = Some 12" by simp
  have K: "final_order ?s 0 12 = 20"
    by (simp add: final_order.simps buddy_page_def align_down_def consts_eval alloc_eval)
  have b: "buddy_page 0 15 = 8"
    by (simp add: buddy_page_def align_down_def consts_eval)
  have e: "free_area ?s 15 = [8]" "free_area ?s 20 = []" by (simp_all add: consts_eval alloc_eval)
  from free_coalesces[OF r m] obtain s' where s':
    "buddy_free ?s 0 = Some s'"
    "\<forall>j. 12 \<le> j \<and> j < 20 \<longrightarrow>
          buddy_page 0 j \<in> set (free_area ?s j)
        \<and> PAGE_TO_ADDR (buddy_page 0 j) = BUDDY_ADDR (align_down 0 j) j
        \<and> free_area s' j = remove1 (buddy_page 0 j) (free_area ?s j)"
    "free_area s' 20 = ADDR_TO_PAGE (align_down 0 20) # free_area ?s 20"
    "page_order s' = (page_order ?s)(ADDR_TO_PAGE (align_down 0 20) := UNSET)"
    unfolding K by blast
  have "free_area s' 15 = []" using s'(2)[rule_format, of 15] b e(1) by simp
  then show ?thesis using s'(1,3,4) K b e by (simp add: align_down_def consts_eval)
qed

text \<open>
  C3. In every state of a run (\<open>buddy_init\<close> followed by \<open>buddy_alloc\<close> and \<open>buddy_free\<close> calls,
  each free on a live address), the byte ranges \<open>[A, A + 2^k)\<close> of the members of the free
  lists of all orders \<open>k\<close>, together with the byte ranges of the live allocations, make up
  the arena \<open>[0, 2^MAX_ORDER)\<close> as a multiset: every byte of the arena lies in exactly one
  block, and no byte outside the arena lies in any.
\<close>

theorem coverage_of_runs:
  "run ops = Some (s, L) \<Longrightarrow>
     (\<Sum>k \<in> {MIN_ORDER..MAX_ORDER}. list_bytes k (free_area s k)) + live_bytes L
       = mset_set {0 ..< 2 ^ 20}
     \<and> (\<forall>x. count (free_bytes s + live_bytes L) x = (if x < 2 ^ 20 then 1 else 0))"
proof -
  assume "run ops = Some (s, L)"
  then have "coverage s L" using run_invariant by (simp add: invariant_def)
  then have "free_bytes s + live_bytes L = mset_set {0 ..< 2 ^ 20}"
    by (simp add: coverage_def arena_bytes_def shl1_def MAX_ORDER_def)
  then show ?thesis by (simp add: free_bytes_def count_mset_set')
qed

theorem coverage_of_runs_witness:
  "\<exists>s L. run [Alloc 4096, Alloc 65536, Free 0] = Some (s, L) \<and>
     (\<Sum>k \<in> {MIN_ORDER..MAX_ORDER}. list_bytes k (free_area s k)) + live_bytes L
       = mset_set {0 ..< 2 ^ 20}"
proof -
  have "run [Alloc 4096, Alloc 65536, Free 0] \<noteq> None"
    by (simp add: run_def consts_eval alloc_eval free_eval)
  then obtain s L where r: "run [Alloc 4096, Alloc 65536, Free 0] = Some (s, L)" by auto
  from coverage_of_runs[OF r] r show ?thesis by blast
qed

text \<open>
  C4, as the specification states it, has each split step set the order field of the right
  half's page record to \<open>j\<close>. The program does not write that field: \<open>buddy_split\<close> assigns
  \<open>left_temp_ptr->order\<close> only. From \<open>buddy_init\<close>, the allocation of 4 KiB descends from
  order 20 to order 12; the right half of the last split is page 1 (address 4096), which
  is put on \<open>free_area[12]\<close> while its order field stays \<open>UNSET\<close>.
\<close>

theorem right_half_order_counterexample:
  "first_nonempty buddy_init (REQ_ORDER 4096) = Some 20
   \<and> fst (buddy_alloc buddy_init 4096) = Inr 0
   \<and> free_area (snd (buddy_alloc buddy_init 4096)) 12 = [ADDR_TO_PAGE (0 + shl1 12)]
   \<and> page_order (snd (buddy_alloc buddy_init 4096)) (ADDR_TO_PAGE (0 + shl1 12)) \<noteq> 12"
  by (simp add: first_nonempty.simps consts_eval alloc_eval)

text \<open>
  C4, amended. When \<open>buddy_alloc\<close> succeeds with address \<open>A\<close>, having found the first
  non-empty free list at order \<open>i\<close> for the requested order \<open>r\<close>: \<open>A\<close> is the address of the
  head of \<open>free_area[i]\<close>, which is removed from that list and retained as the left half
  through the whole descent; for every split step \<open>j\<close> from \<open>i - 1\<close> down to \<open>r\<close> the right
  half at \<open>A + 2^j\<close> is inserted at the head of \<open>free_area[j]\<close>, and the order field of its
  page record is left as it was; the only order field written is that of the page of \<open>A\<close>,
  which becomes \<open>r\<close>.
\<close>

theorem split_steps:
  assumes "buddy_alloc s sz = (Inr A, s')"
    and "first_nonempty s (REQ_ORDER sz) = Some i"
  shows "A = PAGE_TO_ADDR (hd (free_area s i))
    \<and> free_area s' i = tl (free_area s i)
    \<and> (\<forall>j. REQ_ORDER sz \<le> j \<and> j < i \<longrightarrow>
          free_area s' j = ADDR_TO_PAGE (A + shl1 j) # free_area s j
        \<and> page_order s' (ADDR_TO_PAGE (A + shl1 j)) = page_order s (ADDR_TO_PAGE (A + shl1 j)))
    \<and> page_order s' = (page_order s)(ADDR_TO_PAGE A := REQ_ORDER sz)"
proof -
  let ?r = "REQ_ORDER sz"
  from buddy_alloc_Inr[OF assms(1)] obtain i' p rest where
    a: "first_nonempty s ?r = Some i'" "free_area s i' = p # rest"
    "\<forall>j. ?r \<le> j \<and> j < i' \<longrightarrow> free_area s j = []"
    "A = PAGE_TO_ADDR p" "s' = split_state s i' ?r p rest"
    by metis
  have i: "i' = i" using a(1) assms(2) by simp
  have 1: "A = PAGE_TO_ADDR (hd (free_area s i))" using a(2,4) i by simp
  have 2: "free_area s' i = tl (free_area s i)" using a(2,5) i by (simp add: split_state_def)
  have 4: "page_order s' = (page_order s)(ADDR_TO_PAGE A := ?r)"
    using a(4,5) by (simp add: split_state_def)
  have 3: "free_area s' j = ADDR_TO_PAGE (A + shl1 j) # free_area s j
        \<and> page_order s' (ADDR_TO_PAGE (A + shl1 j)) = page_order s (ADDR_TO_PAGE (A + shl1 j))"
    if "?r \<le> j \<and> j < i" for j
  proof -
    have j: "MIN_ORDER \<le> j" using that REQ_ORDER_ge[of sz] by simp
    have rp: "ADDR_TO_PAGE (A + shl1 j) = p + shl1 j div PAGE_SIZE"
      unfolding a(4) using j by (rule right_half_page)
    have "free_area s' j = [p + shl1 j div PAGE_SIZE]"
      using that i a(5) by (simp add: split_state_def)
    moreover have "free_area s j = []" using that a(3) i by simp
    moreover have "page_order s' (p + shl1 j div PAGE_SIZE) = page_order s (p + shl1 j div PAGE_SIZE)"
      using right_half_neq[OF j, of p] a(5) by (simp add: split_state_def)
    ultimately show ?thesis using rp by simp
  qed
  show ?thesis using 1 2 3 4 by blast
qed

theorem split_steps_witness:
  "fst (buddy_alloc buddy_init 61440) = Inr 0
   \<and> free_area (snd (buddy_alloc buddy_init 61440)) 20 = []
   \<and> free_area (snd (buddy_alloc buddy_init 61440)) 17 = [32]
   \<and> page_order (snd (buddy_alloc buddy_init 61440)) 32 = UNSET
   \<and> page_order (snd (buddy_alloc buddy_init 61440)) 0 = 16"
proof -
  let ?s' = "snd (buddy_alloc buddy_init 61440)"
  have a1: "fst (buddy_alloc buddy_init 61440) = Inr 0"
    by (simp add: consts_eval alloc_eval)
  then have a: "buddy_alloc buddy_init 61440 = (Inr 0, ?s')"
    by (intro prod_eqI) simp_all
  have f: "first_nonempty buddy_init (REQ_ORDER 61440) = Some 20"
    by (simp add: first_nonempty.simps consts_eval alloc_eval)
  have r: "REQ_ORDER 61440 = 16" by (simp add: consts_eval alloc_eval)
  note st = split_steps[OF a f, unfolded r]
  note st2 = st[THEN conjunct2, THEN conjunct1]
  note st3 = st[THEN conjunct2, THEN conjunct2, THEN conjunct1, rule_format, of 17]
  note st4 = st[THEN conjunct2, THEN conjunct2, THEN conjunct2]
  have "free_area ?s' 20 = []" using st2 by (simp add: buddy_init_def consts_eval)
  moreover have "free_area ?s' 17 = [32]" "page_order ?s' 32 = UNSET"
    using st3 by (simp_all add: buddy_init_def consts_eval)
  moreover have "page_order ?s' 0 = 16" using st4 by (simp add: consts_eval)
  ultimately show ?thesis using a1 by simp
qed

text \<open>
  C5. In every state of a run, \<open>buddy_alloc\<close> fails with \<open>InvalidSize\<close> (the \<open>return NULL\<close> of
  line 175) exactly when \<open>size \<le> 0\<close>, and with \<open>OutOfMemory\<close> (the \<open>return NULL\<close> of line 210)
  exactly when \<open>size > 0\<close> and either \<open>size > 2^MAX_ORDER\<close> or every free list of an order
  from the requested order to \<open>MAX_ORDER\<close> is empty. It fails in no other way, and a
  failing call leaves the free lists and the page table as they were.
\<close>

theorem alloc_failures:
  assumes "run ops = Some (s, L)"
  shows "(fst (buddy_alloc s sz) = Inl InvalidSize \<longleftrightarrow> sz \<le> 0)
    \<and> (fst (buddy_alloc s sz) = Inl OutOfMemory \<longleftrightarrow>
         0 < sz \<and> (2 ^ 20 < sz \<or>
           (\<forall>i. REQ_ORDER sz \<le> i \<and> i \<le> MAX_ORDER \<longrightarrow> free_area s i = [])))
    \<and> (\<forall>e. fst (buddy_alloc s sz) = Inl e \<longrightarrow>
         (e = InvalidSize \<or> e = OutOfMemory) \<and> snd (buddy_alloc s sz) = s)"
proof -
  have wf: "free_wf s" using run_invariant[OF assms] by (simp add: invariant_def)
  show ?thesis
  proof (cases "sz \<le> 0")
    case True
    then have "buddy_alloc s sz = (Inl InvalidSize, s)" by (subst buddy_alloc.simps) simp
    then show ?thesis using True by simp
  next
    case False
    then have pos: "0 < sz" by simp
    note a = buddy_alloc_wf[OF wf pos]
    show ?thesis
    proof (cases "first_nonempty s (REQ_ORDER sz)")
      case None
      then have "buddy_alloc s sz = (Inl OutOfMemory, s)" using a by simp
      moreover have "\<forall>i. REQ_ORDER sz \<le> i \<and> i \<le> MAX_ORDER \<longrightarrow> free_area s i = []"
        using None by (rule first_nonempty_None)
      ultimately show ?thesis using pos by simp
    next
      case (Some i)
      then have r: "fst (buddy_alloc s sz) = Inr (PAGE_TO_ADDR (hd (free_area s i)))"
        using a by simp
      from first_nonempty_Some[OF Some] have i: "REQ_ORDER sz \<le> i" "i \<le> MAX_ORDER"
        "free_area s i \<noteq> []" by simp_all
      then have "\<not> 2 ^ 20 < sz" using REQ_ORDER_above_MAX[of sz] by auto
      moreover have "\<not> (\<forall>i. REQ_ORDER sz \<le> i \<and> i \<le> MAX_ORDER \<longrightarrow> free_area s i = [])"
        using i by blast
      ultimately show ?thesis using r pos by simp
    qed
  qed
qed

theorem alloc_failures_witness:
  "fst (buddy_alloc (snd (buddy_alloc buddy_init 1048576)) 0) = Inl InvalidSize
   \<and> fst (buddy_alloc (snd (buddy_alloc buddy_init 1048576)) 4096) = Inl OutOfMemory
   \<and> snd (buddy_alloc (snd (buddy_alloc buddy_init 1048576)) 4096) = snd (buddy_alloc buddy_init 1048576)
   \<and> fst (buddy_alloc buddy_init 1048577) = Inl OutOfMemory"
proof -
  let ?s = "snd (buddy_alloc buddy_init 1048576)"
  have r: "run [Alloc 1048576] = Some (?s, [(0, 20)])"
    by (simp add: run_def consts_eval alloc_eval)
  have e: "\<forall>i. REQ_ORDER 4096 \<le> i \<and> i \<le> MAX_ORDER \<longrightarrow> free_area ?s i = []"
    by (simp add: consts_eval alloc_eval)
  have r0: "run [] = Some (buddy_init, [])" by (simp add: run_def)
  show ?thesis
    using alloc_failures[OF r, of 0] alloc_failures[OF r, of 4096] e
      alloc_failures[OF r0, of 1048577]
    by simp
qed

text \<open>
  C6. The claim is that, from \<open>buddy_init\<close> and two allocations of 64 KiB at \<open>a1\<close> and
  \<open>a2 = a1 + 64 KiB\<close>, freeing \<open>a1\<close> then \<open>a2\<close> and freeing \<open>a2\<close> then \<open>a1\<close> produce the same
  fully-free state. The code departs from it. The allocations return \<open>a1 = 0\<close> and
  \<open>a2 = 65536\<close>, both of order 16, and both sequences end with the same free lists (page 0
  alone in the list of \<open>MAX_ORDER\<close>, every other list empty), no live allocation and the
  order field of page 0 cleared. But the page tables differ: after \<open>a1\<close> then \<open>a2\<close>, the
  order field of page 16 (the page of \<open>a2\<close>) is still 16, because \<open>buddy_free\<close> of the right
  buddy clears the order field of the buddy's page only; after \<open>a2\<close> then \<open>a1\<close> it is \<open>UNSET\<close>.
  So the two end states are not the same state.
\<close>

theorem free_sequences_end_states:
  "map_option snd (run [Alloc 65536, Alloc 65536]) = Some [(65536, 16), (0, 16)]
   \<and> map_option (\<lambda>(s, L). (free_lists s, L, page_order s 0, page_order s 16))
         (run [Alloc 65536, Alloc 65536, Free 0, Free 65536])
       = Some ([[], [], [], [], [], [], [], [], [0]], [], UNSET, 16)
   \<and> map_option (\<lambda>(s, L). (free_lists s, L, page_order s 0, page_order s 16))
         (run [Alloc 65536, Alloc 65536, Free 65536, Free 0])
       = Some ([[], [], [], [], [], [], [], [], [0]], [], UNSET, UNSET)
   \<and> map_option fst (run [Alloc 65536, Alloc 65536, Free 0, Free 65536])
       \<noteq> map_option fst (run [Alloc 65536, Alloc 65536, Free 65536, Free 0])"
proof -
  let ?A = "run [Alloc 65536, Alloc 65536, Free 0, Free 65536]"
  let ?B = "run [Alloc 65536, Alloc 65536, Free 65536, Free 0]"
  let ?obs = "\<lambda>(s, L). (free_lists s, L, page_order s 0, page_order s 16)"
  have l: "map_option snd (run [Alloc 65536, Alloc 65536]) = Some [(65536, 16), (0, 16)]"
    by (simp add: run_def consts_eval alloc_eval)
  have a: "map_option ?obs ?A = Some ([[], [], [], [], [], [], [], [], [0]], [], UNSET, 16)"
    by (simp add: run_def free_lists_eval consts_eval alloc_eval free_eval)
  have b: "map_option ?obs ?B = Some ([[], [], [], [], [], [], [], [], [0]], [], UNSET, UNSET)"
    by (simp add: run_def free_lists_eval consts_eval alloc_eval free_eval)
  from a obtain sa La where sa: "?A = Some (sa, La)" "page_order sa 16 = 16" by auto
  from b obtain sb Lb where sb: "?B = Some (sb, Lb)" "page_order sb 16 = UNSET" by auto
  have "sa \<noteq> sb" using sa(2) sb(2) by (auto simp: UNSET_def)
  then have "map_option fst ?A \<noteq> map_option fst ?B" using sa(1) sb(1) by simp
  then show ?thesis using l a b by blast
qed

text \<open>
  C7, as the specification states it, has the recursive allocation leave the same page
  table as the iterative algorithm of section 4.2. That algorithm sets the order field of
  every right half; the program does not. From \<open>buddy_init\<close>, after the allocation of 4 KiB
  the order field of page 1 (the right half of the last split) is 12 under the iterative
  algorithm and \<open>UNSET\<close> in the program.
\<close>

theorem iterative_page_table_counterexample:
  "fst (buddy_alloc buddy_init 4096) = Inr 0
   \<and> fst (spec_allocate buddy_init 4096) = Inr 0
   \<and> page_order (snd (spec_allocate buddy_init 4096)) 1 = 12
   \<and> page_order (snd (buddy_alloc buddy_init 4096)) 1 = UNSET"
  by (simp add: spec_allocate_def first_nonempty.simps spec_descend.simps consts_eval alloc_eval)

text \<open>
  C7, amended. For every state and size on which \<open>buddy_alloc\<close> succeeds, the recursive
  implementation and the iterative algorithm of the specification (find the first non-empty
  order \<open>i \<ge> r\<close>, remove its head, split once per step from \<open>i\<close> down to \<open>r\<close>) return the same
  address and leave the same free lists. Their page tables agree at every page record
  that is not the right half of one of the splits; at the right halves the recursive
  implementation leaves the order field as it was before the call.
\<close>

theorem recursive_and_iterative:
  assumes "buddy_alloc s sz = (Inr A, s')"
    and "first_nonempty s (REQ_ORDER sz) = Some i"
  shows "fst (spec_allocate s sz) = Inr A
    \<and> free_area (snd (spec_allocate s sz)) = free_area s'
    \<and> (\<forall>q. (\<forall>j. REQ_ORDER sz \<le> j \<and> j < i \<longrightarrow> q \<noteq> ADDR_TO_PAGE (A + shl1 j)) \<longrightarrow>
           page_order (snd (spec_allocate s sz)) q = page_order s' q)
    \<and> (\<forall>j. REQ_ORDER sz \<le> j \<and> j < i \<longrightarrow>
           page_order s' (ADDR_TO_PAGE (A + shl1 j)) = page_order s (ADDR_TO_PAGE (A + shl1 j)))"
proof -
  let ?r = "REQ_ORDER sz"
  from buddy_alloc_Inr[OF assms(1)] obtain i' p rest where
    a: "0 < sz" "first_nonempty s ?r = Some i'" "?r \<le> i'" "i' \<le> MAX_ORDER"
    "free_area s i' = p # rest"
    "\<forall>j. ?r \<le> j \<and> j < i' \<longrightarrow> free_area s j = []"
    "A = PAGE_TO_ADDR p" "s' = split_state s i' ?r p rest"
    by metis
  have i: "i' = i" using a(2) assms(2) by simp
  let ?s1 = "s\<lparr>free_area := (free_area s)(i := rest)\<rparr>"
  let ?s2 = "spec_descend ?s1 A (i - 1) ?r"
  have sp: "spec_allocate s sz = (Inr A, ?s2\<lparr>page_order := (page_order ?s2)(ADDR_TO_PAGE A := ?r)\<rparr>)"
    using a i assms(2) by (simp add: spec_allocate_def Let_def)
  note d = spec_descend_closed[of ?s1 A "i - 1" ?r]
  have rp: "ADDR_TO_PAGE (A + shl1 j) = p + shl1 j div PAGE_SIZE" if "?r \<le> j" for j
    unfolding a(7) using that REQ_ORDER_ge[of sz] by (intro right_half_page) simp
  have 2: "free_area (snd (spec_allocate s sz)) = free_area s'"
  proof (rule ext)
    fix k
    consider "k = i" | "?r \<le> k" "k < i" | "k \<noteq> i" "\<not> (?r \<le> k \<and> k < i)" by linarith
    then show "free_area (snd (spec_allocate s sz)) k = free_area s' k"
    proof cases
      case 1
      then show ?thesis using sp d a(8) i by (simp add: split_state_def)
    next
      case 2
      then have "free_area s k = []" using a(6) i by simp
      then show ?thesis using 2 sp d a(8) i rp[of k] by (simp add: split_state_def)
    next
      case 3
      then have "\<not> (?r \<le> k \<and> k \<le> i - 1)" by linarith
      then show ?thesis using 3 sp d a(8) i by (auto simp: split_state_def)
    qed
  qed
  have 3: "page_order (snd (spec_allocate s sz)) q = page_order s' q"
    if "\<forall>j. ?r \<le> j \<and> j < i \<longrightarrow> q \<noteq> ADDR_TO_PAGE (A + shl1 j)" for q
  proof -
    have "\<forall>k. ?r \<le> k \<and> k \<le> i - 1 \<longrightarrow> q \<noteq> ADDR_TO_PAGE (A + shl1 k)" using that by auto
    then have "page_order ?s2 q = page_order ?s1 q" using d by blast
    then show ?thesis using sp a(7,8) by (simp add: split_state_def)
  qed
  have 4: "page_order s' (ADDR_TO_PAGE (A + shl1 j)) = page_order s (ADDR_TO_PAGE (A + shl1 j))"
    if "?r \<le> j \<and> j < i" for j
  proof -
    have j: "MIN_ORDER \<le> j" using that REQ_ORDER_ge[of sz] by simp
    show ?thesis using right_half_neq[OF j, of p] rp[of j] that a(8) by (simp add: split_state_def)
  qed
  show ?thesis using sp 2 3 4 by simp
qed

theorem recursive_and_iterative_witness:
  "fst (spec_allocate buddy_init 61440) = Inr 0
   \<and> free_area (snd (spec_allocate buddy_init 61440)) = free_area (snd (buddy_alloc buddy_init 61440))
   \<and> page_order (snd (spec_allocate buddy_init 61440)) 0 = page_order (snd (buddy_alloc buddy_init 61440)) 0
   \<and> page_order (snd (buddy_alloc buddy_init 61440)) 16 = UNSET"
proof -
  let ?s' = "snd (buddy_alloc buddy_init 61440)"
  have a1: "fst (buddy_alloc buddy_init 61440) = Inr 0"
    by (simp add: consts_eval alloc_eval)
  then have a: "buddy_alloc buddy_init 61440 = (Inr 0, ?s')"
    by (intro prod_eqI) simp_all
  have f: "first_nonempty buddy_init (REQ_ORDER 61440) = Some 20"
    by (simp add: first_nonempty.simps consts_eval alloc_eval)
  have r: "REQ_ORDER 61440 = 16" by (simp add: consts_eval alloc_eval)
  note st = recursive_and_iterative[OF a f, unfolded r]
  note st1 = st[THEN conjunct1]
  note st2 = st[THEN conjunct2, THEN conjunct1]
  note st3 = st[THEN conjunct2, THEN conjunct2, THEN conjunct1, THEN spec[where x = 0], THEN mp]
  note st4 = st[THEN conjunct2, THEN conjunct2, THEN conjunct2, rule_format, of 16]
  have "\<forall>j::int. 16 \<le> j \<and> j < 20 \<longrightarrow> 0 \<noteq> ADDR_TO_PAGE (0 + shl1 j)"
    using right_half_neq[of _ 0] by (simp add: right_half_page[of _ 0, simplified PAGE_TO_ADDR_def, simplified] MIN_ORDER_def)
  then have "page_order (snd (spec_allocate buddy_init 61440)) 0 = page_order ?s' 0"
    by (rule st3)
  moreover have "page_order ?s' 16 = UNSET"
    using st4 by (simp add: consts_eval buddy_init_def)
  ultimately show ?thesis using st1 st2 by simp
qed

text \<open>
  C8. The claim is that every page that heads neither a free-list member nor a live
  allocation has the order field \<open>UNSET\<close>. The code departs from it: \<open>buddy_free\<close> clears the
  order field of the page that heads the coalesced block only. After \<open>buddy_init\<close>, two
  allocations of 4 KiB (at addresses 0 and 4096), \<open>buddy_free\<close> of 0 and then of 4096, no
  allocation is live and the only free-list member is page 0 at order 20; page 1 heads
  nothing, and its order field is still 12.
\<close>

theorem stale_order_after_coalescing:
  "map_option (\<lambda>(s, L). (free_lists s, L, page_order s 0, page_order s 1))
     (run [Alloc 4096, Alloc 4096, Free 0, Free 4096])
   = Some ([[], [], [], [], [], [], [], [], [0]], [], UNSET, 12)"
  by (simp add: run_def free_lists_eval consts_eval alloc_eval free_eval)

text \<open>
  C9, as the specification states it, has \<open>buddy_dump\<close> print the pairs separated by single
  spaces, the last pair directly followed by the line terminator. The program prints each
  pair with the format \<open>"%d:%dK "\<close>, so a space follows the last pair as well: the
  output of the scenario is not the stated line.
\<close>

theorem dump_line_counterexample:
  "map_option buddy_dump (buddy_free (snd (buddy_alloc buddy_init 1048576)) 0)
   \<noteq> Some (''0:4K 0:8K 0:16K 0:32K 0:64K 0:128K 0:256K 0:512K 1:1024K'' @ [CHR 0x0A])"
  by (simp add: consts_eval alloc_eval free_eval dump_eval)

text \<open>
  C9, amended. From \<open>buddy_init\<close> with \<open>MIN_ORDER = 12\<close> and \<open>MAX_ORDER = 20\<close>:
  \<open>buddy_alloc\<close> of 1 MiB returns the arena base; a following \<open>buddy_alloc\<close> of 4 KiB fails
  with \<open>OutOfMemory\<close> and leaves the state as it was; after \<open>buddy_free\<close> of the first block,
  \<open>buddy_dump\<close> prints for each order from \<open>MIN_ORDER\<close> to \<open>MAX_ORDER\<close> the pair count:size
  in KiB, each pair followed by one space, and then the line terminator: the line is
  \<open>"0:4K 0:8K 0:16K 0:32K 0:64K 0:128K 0:256K 0:512K 1:1024K "\<close>, ending in a space.
\<close>

theorem exact_order_scenario:
  "fst (buddy_alloc buddy_init 1048576) = Inr 0
   \<and> buddy_alloc (snd (buddy_alloc buddy_init 1048576)) 4096
       = (Inl OutOfMemory, snd (buddy_alloc buddy_init 1048576))
   \<and> map_option buddy_dump (buddy_free (snd (buddy_alloc buddy_init 1048576)) 0)
       = Some (''0:4K 0:8K 0:16K 0:32K 0:64K 0:128K 0:256K 0:512K 1:1024K '' @ [CHR 0x0A])"
  by (simp add: consts_eval alloc_eval free_eval dump_eval)

text \<open>
  C10. For every address \<open>A\<close> inside the arena, the buddy address at order \<open>MAX_ORDER\<close> is
  \<open>A + 2^MAX_ORDER\<close>, outside the arena, and is the address of no page record. So, in a state
  whose \<open>free_area[MAX_ORDER]\<close> holds page records, \<open>find_buddy\<close> at order \<open>MAX_ORDER\<close> returns
  \<open>NULL\<close>, and the loop body of \<open>buddy_free\<close> at order \<open>MAX_ORDER\<close> clears the order field,
  inserts the block into \<open>free_area[MAX_ORDER]\<close> and returns. Entered at an order
  \<open>ord \<le> MAX_ORDER\<close>, the loop of \<open>buddy_free\<close> runs its body only at orders from \<open>ord\<close> to
  \<open>MAX_ORDER\<close> (these are the indices of \<open>free_area\<close> it uses) and at most
  \<open>MAX_ORDER - ord + 1\<close> times.
\<close>

theorem buddy_at_max_order:
  assumes "A < shl1 MAX_ORDER"
    and "\<forall>p \<in> set (free_area s MAX_ORDER). p < N_PAGES"
    and "ord \<le> MAX_ORDER"
  shows "shl1 MAX_ORDER \<le> BUDDY_ADDR A MAX_ORDER
    \<and> (\<forall>p. p < N_PAGES \<longrightarrow> BUDDY_ADDR A MAX_ORDER \<noteq> PAGE_TO_ADDR p)
    \<and> find_buddy s A MAX_ORDER = None
    \<and> free_body s A index MAX_ORDER =
        Inr (s\<lparr>page_order := (page_order s)(index := UNSET),
              free_area := (free_area s)(MAX_ORDER := index # free_area s MAX_ORDER)\<rparr>)
    \<and> (\<forall>k \<in> set (free_orders t a i ord). ord \<le> k \<and> k \<le> MAX_ORDER)
    \<and> length (free_orders t a i ord) \<le> nat (MAX_ORDER - ord + 1)"
proof -
  have b: "BUDDY_ADDR A MAX_ORDER = A + shl1 MAX_ORDER"
    using assms(1) by (rule BUDDY_ADDR_above)
  then have 1: "shl1 MAX_ORDER \<le> BUDDY_ADDR A MAX_ORDER" by simp
  have 2: "BUDDY_ADDR A MAX_ORDER \<noteq> PAGE_TO_ADDR p" if "p < N_PAGES" for p
    using PAGE_TO_ADDR_in_arena[OF that] 1 by simp
  have 3: "find_buddy s A MAX_ORDER = None"
    unfolding find_buddy_def using assms(2) 2 by (auto simp: find_None_iff)
  then have 4: "free_body s A index MAX_ORDER =
      Inr (s\<lparr>page_order := (page_order s)(index := UNSET),
            free_area := (free_area s)(MAX_ORDER := index # free_area s MAX_ORDER)\<rparr>)"
    by (simp add: free_body_def)
  show ?thesis using 1 2 3 4 free_orders_bounds[OF assms(3), of t a i] by blast
qed

theorem buddy_at_max_order_witness:
  "BUDDY_ADDR 4096 MAX_ORDER = 1052672
   \<and> find_buddy buddy_init 4096 MAX_ORDER = None
   \<and> set (free_orders buddy_init 4096 1 12) \<subseteq> {12..20}
   \<and> length (free_orders buddy_init 4096 1 12) \<le> 9"
proof -
  have h: "(4096::nat) < shl1 MAX_ORDER" "\<forall>p \<in> set (free_area buddy_init MAX_ORDER). p < N_PAGES"
    "(12::int) \<le> MAX_ORDER"
    by (simp_all add: consts_eval buddy_init_def)
  have "BUDDY_ADDR 4096 MAX_ORDER = 1052672"
    using BUDDY_ADDR_above[OF h(1)] by (simp add: consts_eval)
  then show ?thesis
    using buddy_at_max_order[OF h, of 1 buddy_init 4096 1] by (auto simp: MAX_ORDER_def)
qed

end
